theory Spec2Isabelle
  imports Main "HOL-Library.Sublist"
begin

section \<open>Python regular expressions, as far as snapshill.py uses them\<close>

text \<open>
  The three module-level patterns and the calls \<^verbatim>\<open>re.match\<close>, \<^verbatim>\<open>re.search\<close>,
  \<^verbatim>\<open>re.sub\<close> and \<^verbatim>\<open>re.split\<close> are modelled by a small backtracking matcher.
  \<open>rmatch n r s\<close> lists, in the order in which Python's engine tries them, the
  rests of \<open>s\<close> that remain after \<open>r\<close> has matched a prefix of \<open>s\<close>; \<open>n\<close> is the
  length of the whole subject string, so that \<^verbatim>\<open>^\<close> can see whether it stands
  at position 0. Greedy operators list the longest alternative first.

  A string is a list of characters of one byte. The patterns of the module
  test ASCII characters only, and a character outside their classes is
  treated like any other character outside them.
\<close>

datatype regex =
    Bol
  | Eol
  | Lit string
  | Seq regex regex
  | Alt regex regex
  | Opt regex
  | Rep nat "nat option" "char \<Rightarrow> bool"

fun lit_rest :: "string \<Rightarrow> string \<Rightarrow> string option" where
  "lit_rest [] s = Some s"
| "lit_rest (c # cs) [] = None"
| "lit_rest (c # cs) (x # xs) = (if c = x then lit_rest cs xs else None)"

fun rmatch :: "nat \<Rightarrow> regex \<Rightarrow> string \<Rightarrow> string list" where
  "rmatch n Bol s = (if length s = n then [s] else [])"
| "rmatch n Eol s = (if s = [] \<or> s = [CHR 0x0A] then [s] else [])"
| "rmatch n (Lit l) s = (case lit_rest l s of None \<Rightarrow> [] | Some r \<Rightarrow> [r])"
| "rmatch n (Seq a b) s = concat (map (rmatch n b) (rmatch n a s))"
| "rmatch n (Alt a b) s = rmatch n a s @ rmatch n b s"
| "rmatch n (Opt a) s = rmatch n a s @ [s]"
| "rmatch n (Rep lo hi P) s =
     (let m = length (takeWhile P s);
          m' = (case hi of None \<Rightarrow> m | Some h \<Rightarrow> min m h)
      in map (\<lambda>k. drop k s) (rev [lo..<Suc m']))"

text \<open>\<^verbatim>\<open>re.match\<close>: the end index of the match at position 0, or \<open>None\<close>.\<close>

definition re_match :: "regex \<Rightarrow> string \<Rightarrow> nat option" where
  "re_match r s =
     (case rmatch (length s) r s of [] \<Rightarrow> None | x # _ \<Rightarrow> Some (length s - length x))"

text \<open>\<^verbatim>\<open>re.search\<close>: start and end index of the leftmost match, or \<open>None\<close>.\<close>

fun search_from :: "nat \<Rightarrow> regex \<Rightarrow> string \<Rightarrow> (nat \<times> nat) option" where
  "search_from n r [] =
     (case rmatch n r [] of [] \<Rightarrow> None | x # _ \<Rightarrow> Some (n, n - length x))"
| "search_from n r (c # cs) =
     (case rmatch n r (c # cs) of
        [] \<Rightarrow> search_from n r cs
      | x # _ \<Rightarrow> Some (n - Suc (length cs), n - length x))"

definition re_search :: "regex \<Rightarrow> string \<Rightarrow> (nat \<times> nat) option" where
  "re_search r s = search_from (length s) r s"

text \<open>
  \<^verbatim>\<open>re.sub\<close> with a replacement that holds no backslash: every leftmost
  non-overlapping match is replaced, scanning from the left; after an empty
  match the scan copies one character and moves on.
\<close>

function sub_from :: "nat \<Rightarrow> regex \<Rightarrow> string \<Rightarrow> string \<Rightarrow> string" where
  "sub_from n r repl [] = (case rmatch n r [] of [] \<Rightarrow> [] | x # _ \<Rightarrow> repl)"
| "sub_from n r repl (c # cs) =
     (case rmatch n r (c # cs) of
        [] \<Rightarrow> c # sub_from n r repl cs
      | x # _ \<Rightarrow>
          if length x < Suc (length cs) then repl @ sub_from n r repl x
          else repl @ c # sub_from n r repl cs)"
  by pat_completeness auto
termination
  by (relation "measure (\<lambda>(n, r, repl, s). length s)") auto

definition re_sub :: "regex \<Rightarrow> string \<Rightarrow> string \<Rightarrow> string" where
  "re_sub r repl s = sub_from (length s) r repl s"

section \<open>Module constants\<close>

definition cls_Az :: "char \<Rightarrow> bool" where
  "cls_Az c = ((65::nat) \<le> of_char c \<and> of_char c \<le> (122::nat))"

definition cls_not_slash :: "char \<Rightarrow> bool" where
  "cls_not_slash c = (c \<noteq> CHR ''/'')"

text \<open>\<^verbatim>\<open>https?://(([A-z]{2})(-[A-z]{2})?|beta|i|m|pay|ssl|www)\.?reddit\.com\<close>\<close>

definition REDDIT_PATTERN :: regex where
  "REDDIT_PATTERN =
     Seq (Lit ''http'') (Seq (Opt (Lit ''s'')) (Seq (Lit ''://'')
       (Seq (Alt (Seq (Rep 2 (Some 2) cls_Az)
                      (Opt (Seq (Lit ''-'') (Rep 2 (Some 2) cls_Az))))
            (Alt (Lit ''beta'') (Alt (Lit ''i'') (Alt (Lit ''m'')
            (Alt (Lit ''pay'') (Alt (Lit ''ssl'') (Lit ''www'')))))))
       (Seq (Opt (Lit ''.'')) (Lit ''reddit.com'')))))"

text \<open>\<^verbatim>\<open>(u|user|r)\<close>, shared by the two patterns below.\<close>

definition u_user_r :: regex where
  "u_user_r = Alt (Lit ''u'') (Alt (Lit ''user'') (Lit ''r''))"

text \<open>\<^verbatim>\<open>/(u|user|r)/[^\/]+/?$\<close>\<close>

definition SUBREDDIT_OR_USER :: regex where
  "SUBREDDIT_OR_USER =
     Seq (Lit ''/'') (Seq u_user_r (Seq (Lit ''/'')
       (Seq (Rep 1 None cls_not_slash) (Seq (Opt (Lit ''/'')) Eol))))"

text \<open>\<^verbatim>\<open>^/?(u|user|r)/[^\/]+/?$\<close>\<close>

definition PLAIN_SUBREDDIT_OR_USER :: regex where
  "PLAIN_SUBREDDIT_OR_USER =
     Seq Bol (Seq (Opt (Lit ''/'')) (Seq u_user_r (Seq (Lit ''/'')
       (Seq (Rep 1 None cls_not_slash) (Seq (Opt (Lit ''/'')) Eol)))))"

section \<open>UrlNormalizer: \<^verbatim>\<open>fix_url\<close> and \<^verbatim>\<open>skip_url\<close>\<close>

definition fix_url :: "string \<Rightarrow> string" where
  "fix_url url =
     (let url' = (if re_match PLAIN_SUBREDDIT_OR_USER url \<noteq> None
                  then ''http://www.reddit.com/'' @ url else url)
      in re_sub REDDIT_PATTERN ''http://www.reddit.com'' url')"

definition skip_url :: "string \<Rightarrow> bool" where
  "skip_url url =
     (re_match REDDIT_PATTERN url \<noteq> None \<and> re_search SUBREDDIT_OR_USER url \<noteq> None)"

section \<open>Python values and exceptions\<close>

text \<open>
  The exceptions that occur in the module. \<^verbatim>\<open>RECOVERABLE_EXC\<close> is the tuple of
  the three praw exception classes; every other exception, among them the
  ones Python itself raises for an unbound name, a missing attribute or an
  ill-typed operand, passes through an \<^verbatim>\<open>except RECOVERABLE_EXC\<close> clause.
\<close>

datatype exc =
    APIException
  | ClientException
  | HTTPException
  | NameError
  | TypeError
  | AttributeError
  | KeyError
  | IndexError
  | PyException string
  | OtherError string

definition RECOVERABLE_EXC :: "exc list" where
  "RECOVERABLE_EXC = [APIException, ClientException, HTTPException]"

definition recoverable :: "exc \<Rightarrow> bool" where
  "recoverable e = (e \<in> set RECOVERABLE_EXC)"

text \<open>
  The attribute \<^verbatim>\<open>archived\<close> holds \<^verbatim>\<open>None\<close>, \<^verbatim>\<open>False\<close> or a string;
  \<open>truthy\<close> is Python's truth test on such a value.
\<close>

datatype pyval = PyNone | PyFalse | PyStr string

fun truthy :: "pyval \<Rightarrow> bool" where
  "truthy PyNone = False"
| "truthy PyFalse = False"
| "truthy (PyStr s) = (s \<noteq> [])"

definition ERROR_MESSAGE :: string where
  "ERROR_MESSAGE = ''could not auto-archive; click to resubmit!''"

definition INFO :: string where
  "INFO = ''/r/SnapshillBot''"

definition CONTACT :: string where
  "CONTACT = ''/message/compose?to='' @ [CHR 0x5C] @ ''/r'' @ [CHR 0x5C] @ ''/SnapshillBot''"

definition LEN_MAX :: nat where
  "LEN_MAX = 35"

definition get_footer :: string where
  "get_footer = ''*^(I am a bot.) ^'' @ [CHR 0x5C] @ ''([*Info*]('' @ INFO
                @ '') ^/ ^[*Contact*]('' @ CONTACT @ ''))*''"

text \<open>\<^verbatim>\<open>sep.join(xs)\<close> and \<^verbatim>\<open>str(n)\<close> for a natural number.\<close>

fun join_str :: "string \<Rightarrow> string list \<Rightarrow> string" where
  "join_str sep [] = []"
| "join_str sep [x] = x"
| "join_str sep (x # y # ys) = x @ sep @ join_str sep (y # ys)"

function str_nat :: "nat \<Rightarrow> string" where
  "str_nat n = (if n < 10 then [char_of (48 + n)]
                else str_nat (n div 10) @ [char_of (48 + n mod 10)])"
  by pat_completeness auto
termination
  by (relation "measure (\<lambda>n. n)") auto

section \<open>The outside world\<close>

text \<open>
  Every call that leaves the process is an event: the HTTP requests of the
  archive providers (through the \<^verbatim>\<open>requests\<close> session \<^verbatim>\<open>s\<close>), the calls
  to reddit (through \<^verbatim>\<open>r\<close> and the objects it returns) and the statements
  run on the sqlite cursor. The world records the events in the order in
  which they are issued and holds the rows of the table \<^verbatim>\<open>links\<close>. What a
  call answers is not decided by the program: the answers are parameters,
  a function from the call to an exception or a value.
\<close>

datatype call =
    HttpGet string
  | HttpPost string "(string \<times> string) list"
  | GetNew nat
  | Submit string string string
  | SubmissionComment string string
  | PostComment string string
  | SelectLinks string
  | InsertLinks string string

record response =
  res_text :: string
  res_url :: string

record world =
  calls :: "call list"
  links_table :: "(string \<times> string) list"

type_synonym http = "call \<Rightarrow> exc + response"
type_synonym reddit = "call \<Rightarrow> exc + string"

definition issue :: "call \<Rightarrow> world \<Rightarrow> world" where
  "issue c w = w\<lparr>calls := calls w @ [c]\<rparr>"

section \<open>ArchiveProvider: the class \<^verbatim>\<open>Archive\<close> and its four subclasses\<close>

datatype site = ArchiveIs | ArchiveOrg | MegalodonJP | Goldfish

fun site_name :: "site \<Rightarrow> string" where
  "site_name ArchiveIs = ''archive.is''"
| "site_name ArchiveOrg = ''archive.org''"
| "site_name MegalodonJP = ''megalodon.jp''"
| "site_name Goldfish = ''snew.github.io''"

record archive =
  a_site :: site
  a_url :: string
  archived :: pyval

definition Archive_init :: "site \<Rightarrow> string \<Rightarrow> archive" where
  "Archive_init st url = \<lparr>a_site = st, a_url = url, archived = PyNone\<rparr>"

text \<open>
  \<^verbatim>\<open>re.findall\<close> for a pattern without groups: the matched strings, from left
  to right.
\<close>

function findall_from :: "nat \<Rightarrow> regex \<Rightarrow> string \<Rightarrow> string list" where
  "findall_from n r [] = (case rmatch n r [] of [] \<Rightarrow> [] | x # _ \<Rightarrow> [[]])"
| "findall_from n r (c # cs) =
     (case rmatch n r (c # cs) of
        [] \<Rightarrow> findall_from n r cs
      | x # _ \<Rightarrow>
          if length x < Suc (length cs)
          then take (Suc (length cs) - length x) (c # cs) # findall_from n r x
          else [] # findall_from n r cs)"
  by pat_completeness auto
termination
  by (relation "measure (\<lambda>(n, r, s). length s)") auto

definition re_findall :: "regex \<Rightarrow> string \<Rightarrow> string list" where
  "re_findall r s = findall_from (length s) r s"

definition cls_dot :: "char \<Rightarrow> bool" where
  "cls_dot c = (c \<noteq> CHR 0x0A)"

definition cls_0z :: "char \<Rightarrow> bool" where
  "cls_0z c = ((48::nat) \<le> of_char c \<and> of_char c \<le> (122::nat))"

text \<open>\<^verbatim>\<open>http[s]?://archive.is/[0-z]{1,6}\<close>; the dot is not escaped in the source.\<close>

definition ARCHIVE_IS_LINK :: regex where
  "ARCHIVE_IS_LINK =
     Seq (Lit ''http'') (Seq (Opt (Lit ''s'')) (Seq (Lit ''://archive'')
       (Seq (Rep 1 (Some 1) cls_dot) (Seq (Lit ''is/'') (Rep 1 (Some 6) cls_0z)))))"

text \<open>
  The four \<^verbatim>\<open>archive\<close> methods. Each returns the new world and either the
  exception that leaves the method or the value it returns.
\<close>

definition ArchiveIs_archive :: "http \<Rightarrow> archive \<Rightarrow> world \<Rightarrow> world \<times> (exc + pyval)" where
  "ArchiveIs_archive h a w =
     (let c = HttpPost ''https://archive.is/submit/'' [(''url'', a_url a)] in
      (issue c w,
       case h c of
         Inl e \<Rightarrow> if recoverable e then Inr PyFalse else Inl e
       | Inr res \<Rightarrow>
           (case re_findall ARCHIVE_IS_LINK (res_text res) of
              [] \<Rightarrow> Inr PyFalse
            | f # _ \<Rightarrow> Inr (PyStr f))))"

text \<open>
  In \<^verbatim>\<open>ArchiveOrgArchive.archive\<close> the handler of \<^verbatim>\<open>RECOVERABLE_EXC\<close> starts by
  evaluating \<^verbatim>\<open>isinstance(e, HTTPError)\<close>. The module binds no name
  \<^verbatim>\<open>HTTPError\<close> (it imports \<^verbatim>\<open>HTTPException\<close>), so the handler raises
  \<^verbatim>\<open>NameError\<close> before either \<^verbatim>\<open>return\<close>. \<open>now\<close> is what
  \<^verbatim>\<open>time.strftime(ARCHIVE_ORG_FORMAT, time.gmtime())\<close> returns.
\<close>

definition ArchiveOrg_archive ::
    "http \<Rightarrow> string \<Rightarrow> archive \<Rightarrow> world \<Rightarrow> world \<times> (exc + pyval)" where
  "ArchiveOrg_archive h now a w =
     (let c = HttpGet (''https://web.archive.org/save/'' @ a_url a) in
      (issue c w,
       case h c of
         Inl e \<Rightarrow> if recoverable e then Inl NameError else Inl e
       | Inr res \<Rightarrow> Inr (PyStr (''https://web.archive.org/'' @ now @ ''/'' @ a_url a))))"

definition MegalodonJP_archive :: "http \<Rightarrow> archive \<Rightarrow> world \<Rightarrow> world \<times> (exc + pyval)" where
  "MegalodonJP_archive h a w =
     (let c = HttpPost ''http://megalodon.jp/pc/get_simple/decide'' [(''url'', a_url a)] in
      (issue c w,
       case h c of
         Inl e \<Rightarrow> if recoverable e then Inr PyFalse else Inl e
       | Inr res \<Rightarrow>
           if res_url res = ''http://megalodon.jp/pc/get_simple/decide''
           then Inr PyFalse else Inr (PyStr (res_url res))))"

definition Goldfish_archive :: "archive \<Rightarrow> world \<Rightarrow> world \<times> (exc + pyval)" where
  "Goldfish_archive a w =
     (w, Inr (PyStr (re_sub REDDIT_PATTERN ''https://snew.github.io'' (a_url a))))"

definition archive_method ::
    "http \<Rightarrow> string \<Rightarrow> archive \<Rightarrow> world \<Rightarrow> world \<times> (exc + pyval)" where
  "archive_method h now a w =
     (case a_site a of
        ArchiveIs \<Rightarrow> ArchiveIs_archive h a w
      | ArchiveOrg \<Rightarrow> ArchiveOrg_archive h now a w
      | MegalodonJP \<Rightarrow> MegalodonJP_archive h a w
      | Goldfish \<Rightarrow> Goldfish_archive a w)"

text \<open>
  The rendering methods of \<^verbatim>\<open>Archive\<close>. \<^verbatim>\<open>resubmit_link\<close> returns \<^verbatim>\<open>None\<close>
  and no subclass overrides it (the subclasses define \<^verbatim>\<open>error_link\<close>), so
  \<^verbatim>\<open>error_message\<close> formats the text \<^verbatim>\<open>None\<close>.
\<close>

definition Archive_name :: "archive \<Rightarrow> string" where
  "Archive_name a =
     (if truthy (archived a) then site_name (a_site a)
      else ''_'' @ site_name (a_site a) @ [CHR 0x5C] @ ''*_'')"

definition Archive_error_message :: "archive \<Rightarrow> string" where
  "Archive_error_message a = ''None'' @ '' '' @ [CHR 0x22] @ ERROR_MESSAGE @ [CHR 0x22]"

definition Archive_link :: "archive \<Rightarrow> string" where
  "Archive_link a =
     (case archived a of
        PyStr u \<Rightarrow> if u \<noteq> [] then u else Archive_error_message a
      | _ \<Rightarrow> Archive_error_message a)"

definition Archive_format :: "archive \<Rightarrow> string" where
  "Archive_format a = ''['' @ Archive_name a @ '']('' @ Archive_link a @ '')''"

text \<open>
  Which classes define an attribute \<^verbatim>\<open>error_link\<close>: all but
  \<^verbatim>\<open>GoldfishArchive\<close>. It is a method in each of them.
\<close>

fun has_error_link :: "site \<Rightarrow> bool" where
  "has_error_link Goldfish = False"
| "has_error_link _ = True"

section \<open>LinkArchiver: the class \<^verbatim>\<open>Link\<close>\<close>

record link =
  l_url :: string
  l_text :: string
  archives :: "archive list"

definition Link_init :: "string \<Rightarrow> string \<Rightarrow> link" where
  "Link_init url text =
     \<lparr>l_url = url,
      l_text = (if length text > LEN_MAX then take LEN_MAX text @ ''...'' else text),
      archives = [Archive_init ArchiveOrg url, Archive_init MegalodonJP url]
                 @ (if re_match REDDIT_PATTERN url \<noteq> None
                    then [Archive_init Goldfish url] else [])
                 @ [Archive_init ArchiveIs url]\<rparr>"

definition Link_format :: "link \<Rightarrow> nat \<Rightarrow> string" where
  "Link_format l no =
     str_nat no @ ''. ['' @ l_text l @ '']('' @ l_url l @ '') - ''
     @ join_str '', '' (map Archive_format (filter (\<lambda>a. archived a \<noteq> PyNone) (archives l)))"

section \<open>HeaderRotator: the class \<^verbatim>\<open>Header\<close>\<close>

record header =
  h_subreddit :: string
  texts :: "string list"

text \<open>
  \<^verbatim>\<open>str.strip()\<close> removes white space at both ends; among the characters of
  one byte Python counts 0x09 to 0x0D, 0x1C to 0x20, 0x85 and 0xA0 as white
  space.
\<close>

definition is_space :: "char \<Rightarrow> bool" where
  "is_space c =
     (let k = (of_char c :: nat)
      in (9 \<le> k \<and> k \<le> 13) \<or> (28 \<le> k \<and> k \<le> 32) \<or> k = 133 \<or> k = 160)"

definition strip :: "string \<Rightarrow> string" where
  "strip s = rev (dropWhile is_space (rev (dropWhile is_space s)))"

definition startswith :: "string \<Rightarrow> string \<Rightarrow> bool" where
  "startswith s p = (take (length p) s = p)"

text \<open>
  \<^verbatim>\<open>re.split\<close> for a pattern without groups: the pieces between the matches.
  An empty match does not split; the one pattern the module splits by cannot
  match the empty string.
\<close>

function split_from :: "nat \<Rightarrow> regex \<Rightarrow> string \<Rightarrow> string \<Rightarrow> string list" where
  "split_from n r acc [] = [acc]"
| "split_from n r acc (c # cs) =
     (case rmatch n r (c # cs) of
        [] \<Rightarrow> split_from n r (acc @ [c]) cs
      | x # _ \<Rightarrow>
          if length x < Suc (length cs) then acc # split_from n r [] x
          else split_from n r (acc @ [c]) cs)"
  by pat_completeness auto
termination
  by (relation "measure (\<lambda>(n, r, acc, s). length s)") auto

definition re_split :: "regex \<Rightarrow> string \<Rightarrow> string list" where
  "re_split r s = split_from (length s) r [] s"

text \<open>\<^verbatim>\<open>\r\n-{3,}\r\n\<close>\<close>

definition QUOTE_SEPARATOR :: regex where
  "QUOTE_SEPARATOR =
     Seq (Lit [CHR 0x0D, CHR 0x0A])
       (Seq (Rep 3 None (\<lambda>c. c = CHR ''-'')) (Lit [CHR 0x0D, CHR 0x0A]))"

definition parse_quotes :: "string \<Rightarrow> string list" where
  "parse_quotes quotes_str =
     map strip (filter (\<lambda>q. strip q \<noteq> []) (re_split QUOTE_SEPARATOR quotes_str))"

text \<open>
  The constructor. \<open>settings\<close> is the exception, if any, that
  \<^verbatim>\<open>r.get_subreddit(settings_wiki)\<close> raises (the call stands before the
  \<^verbatim>\<open>try\<close>); \<open>wiki\<close> is what \<^verbatim>\<open>self._get_wiki_content()\<close> raises or returns
  for the page \<^verbatim>\<open>"extxt/" + subreddit.lower()\<close>.
\<close>

definition Header_init :: "exc option \<Rightarrow> exc + string \<Rightarrow> string \<Rightarrow> exc + header" where
  "Header_init settings wiki subreddit =
     (case settings of
        Some e \<Rightarrow> Inl e
      | None \<Rightarrow>
          (case wiki of
             Inl e \<Rightarrow>
               if recoverable e then Inr \<lparr>h_subreddit = subreddit, texts = []\<rparr> else Inl e
           | Inr content \<Rightarrow>
               Inr \<lparr>h_subreddit = subreddit,
                    texts = (if \<not> startswith content ''!ignore''
                             then parse_quotes content else [])\<rparr>))"

definition Header_len :: "header \<Rightarrow> nat" where
  "Header_len h = length (texts h)"

text \<open>
  \<^verbatim>\<open>get\<close>: \<open>rnd\<close> is the number the random generator draws;
  \<^verbatim>\<open>random.choice\<close> picks the text at an index below the length of the list.
\<close>

definition Header_get :: "header \<Rightarrow> nat \<Rightarrow> string" where
  "Header_get h rnd =
     (if texts h = [] then [] else texts h ! (rnd mod length (texts h)))"

section \<open>DedupStore and feed item: the class \<^verbatim>\<open>Post\<close>\<close>

record submission =
  s_name :: string
  s_permalink :: string
  s_url :: string
  is_self :: bool
  selftext_html :: "string option"

record post =
  p_submission :: submission
  p_links :: "link list"

definition Post_init :: "submission \<Rightarrow> post" where
  "Post_init sub = \<lparr>p_submission = sub, p_links = []\<rparr>"

definition Post_name :: "post \<Rightarrow> string" where
  "Post_name p = s_name (p_submission p)"

definition Post_permalink :: "post \<Rightarrow> string" where
  "Post_permalink p = s_permalink (p_submission p)"

text \<open>
  \<^verbatim>\<open>should_notify\<close> selects the rows of \<^verbatim>\<open>links\<close> with the post's id and
  answers \<^verbatim>\<open>False\<close> when \<^verbatim>\<open>fetchone\<close> finds one.
\<close>

definition should_notify :: "post \<Rightarrow> world \<Rightarrow> world \<times> bool" where
  "should_notify p w =
     (issue (SelectLinks (Post_name p)) w,
      (case filter (\<lambda>row. fst row = Post_name p) (links_table w) of
         [] \<Rightarrow> True
       | row # _ \<Rightarrow> False))"

definition Post_format_links :: "post \<Rightarrow> string" where
  "Post_format_links p =
     join_str [CHR 0x0A] (map (\<lambda>(i, l). Link_format l i) (zip [1..<Suc (length (p_links p))] (p_links p)))"

text \<open>
  \<^verbatim>\<open>add_comment\<close> passes its arguments to the submission's \<^verbatim>\<open>add_comment\<close>
  and has no \<^verbatim>\<open>return\<close> statement: when the call does not raise, the
  method returns \<^verbatim>\<open>None\<close>, whatever comment reddit created. The result is
  the exception or the returned comment's name, if an object is returned.
\<close>

definition Post_add_comment ::
    "reddit \<Rightarrow> post \<Rightarrow> string \<Rightarrow> world \<Rightarrow> world \<times> (exc + string option)" where
  "Post_add_comment rd p text w =
     (let c = PostComment (Post_name p) text in
      (issue c w,
       case rd c of
         Inl e \<Rightarrow> Inl e
       | Inr created \<Rightarrow> Inr None))"

section \<open>NotificationBuilder: the class \<^verbatim>\<open>Notification\<close>\<close>

record notification =
  n_post :: post
  n_header :: header
  n_links :: "link list"

text \<open>
  \<^verbatim>\<open>_build\<close>. For an attempt that is not \<^verbatim>\<open>None\<close> and not true the method
  evaluates \<^verbatim>\<open>archive.error_link + ' "could not ..."'\<close>: the attribute is
  not called, so its value is a bound method, and adding a string to it
  raises \<^verbatim>\<open>TypeError\<close>; \<^verbatim>\<open>GoldfishArchive\<close> has no such attribute, which
  raises \<^verbatim>\<open>AttributeError\<close>. For a successful attempt the link text is
  \<^verbatim>\<open>archive.name\<close>, again not called: \<open>mrepr a\<close> stands for the text Python
  prints for that bound method, which holds the address of the object and
  is a parameter for that reason.
\<close>

fun build_subparts :: "(archive \<Rightarrow> string) \<Rightarrow> archive list \<Rightarrow> exc + string list" where
  "build_subparts mrepr [] = Inr []"
| "build_subparts mrepr (a # as) =
     (case archived a of
        PyNone \<Rightarrow> build_subparts mrepr as
      | PyFalse \<Rightarrow> if has_error_link (a_site a) then Inl TypeError else Inl AttributeError
      | PyStr archive_link \<Rightarrow>
          if archive_link = []
          then (if has_error_link (a_site a) then Inl TypeError else Inl AttributeError)
          else (case build_subparts mrepr as of
                  Inl e \<Rightarrow> Inl e
                | Inr subparts \<Rightarrow>
                    Inr ((''['' @ mrepr a @ '']('' @ archive_link @ '')'') # subparts)))"

fun build_lines :: "(archive \<Rightarrow> string) \<Rightarrow> nat \<Rightarrow> link list \<Rightarrow> exc + string list" where
  "build_lines mrepr i [] = Inr []"
| "build_lines mrepr i (l # ls) =
     (case build_subparts mrepr (archives l) of
        Inl e \<Rightarrow> Inl e
      | Inr subparts \<Rightarrow>
          (case build_lines mrepr (Suc i) ls of
             Inl e \<Rightarrow> Inl e
           | Inr parts \<Rightarrow>
               Inr ((str_nat i @ ''. '' @ l_text l @ '' - '' @ join_str '', '' subparts)
                    # parts)))"

definition build :: "(archive \<Rightarrow> string) \<Rightarrow> nat \<Rightarrow> notification \<Rightarrow> exc + string" where
  "build mrepr rnd n =
     (case build_lines mrepr 1 (n_links n) of
        Inl e \<Rightarrow> Inl e
      | Inr parts \<Rightarrow>
          Inr (join_str [CHR 0x0A, CHR 0x0A]
                 ([Header_get (n_header n) rnd, ''Snapshots:''] @ parts @ [get_footer])))"

text \<open>
  The branch of \<^verbatim>\<open>notify\<close> for a text of more than 9999 characters. The
  answer of reddit to \<^verbatim>\<open>r.submit\<close> is the new submission, known by its
  \<^verbatim>\<open>url\<close>.
\<close>

definition post_overflow ::
    "reddit \<Rightarrow> post \<Rightarrow> string \<Rightarrow> world \<Rightarrow> world \<times> (exc + string option)" where
  "post_overflow rd p comment w =
     (let lnk = Post_permalink p;
          c1 = Submit ''SnapshillBotEx'' (''Archives for '' @ lnk) (take 39999 comment);
          w1 = issue c1 w
      in case rd c1 of
           Inl e \<Rightarrow> (w1, Inl e)
         | Inr sub_url \<Rightarrow>
             (let c2 = SubmissionComment sub_url
                         (''The original submission can be found here:''
                          @ [CHR 0x0A, CHR 0x0A] @ lnk);
                  w2 = issue c2 w1
              in case rd c2 of
                   Inl e \<Rightarrow> (w2, Inl e)
                 | Inr created \<Rightarrow>
                     Post_add_comment rd p
                       (''Wow, that's a lot of links! The snapshots can be [found here.](''
                        @ sub_url @ '')'' @ [CHR 0x0A, CHR 0x0A] @ get_footer) w2))"

definition insert_link :: "string \<Rightarrow> string \<Rightarrow> world \<Rightarrow> world" where
  "insert_link item reply w =
     (issue (InsertLinks item reply) w)\<lparr>links_table := links_table w @ [(item, reply)]\<rparr>"

text \<open>
  \<^verbatim>\<open>notify\<close>. The \<^verbatim>\<open>try\<close> block spans \<^verbatim>\<open>_build\<close> and the posting; its handler
  catches \<^verbatim>\<open>RECOVERABLE_EXC\<close> and returns. After the block the method reads
  \<^verbatim>\<open>comment.name\<close> of what \<^verbatim>\<open>self.post.add_comment\<close> returned, which raises
  \<^verbatim>\<open>AttributeError\<close> on \<^verbatim>\<open>None\<close>, and inserts the row. The result is the new
  world and the exception that leaves the method, if one does.
\<close>

definition notify ::
    "reddit \<Rightarrow> (archive \<Rightarrow> string) \<Rightarrow> nat \<Rightarrow> notification \<Rightarrow> world \<Rightarrow> world \<times> exc option" where
  "notify rd mrepr rnd n w =
     (case build mrepr rnd n of
        Inl e \<Rightarrow> if recoverable e then (w, None) else (w, Some e)
      | Inr comment \<Rightarrow>
          (case (if length comment > 9999
                 then post_overflow rd (n_post n) comment w
                 else Post_add_comment rd (n_post n) comment w) of
             (w', Inl e) \<Rightarrow> if recoverable e then (w', None) else (w', Some e)
           | (w', Inr None) \<Rightarrow> (w', Some AttributeError)
           | (w', Inr (Some reply)) \<Rightarrow>
               (insert_link (Post_name (n_post n)) reply w', None)))"

section \<open>Orchestrator: the class \<^verbatim>\<open>Snapshill\<close>\<close>

record snapshill =
  username :: string
  password :: string
  limit :: nat
  settings_wiki :: string
  headers :: "(string \<times> header) list"
  setup_done :: bool

text \<open>
  The loop of \<^verbatim>\<open>run\<close> over the fetched submissions. The first statement of
  its body, line 403, is the expression \<^verbatim>\<open>submis\<close>. The module binds no such
  name, and neither do the built-ins, so evaluating it raises \<^verbatim>\<open>NameError\<close>
  for the first submission, and the exception leaves \<^verbatim>\<open>run\<close>.
\<close>

fun run_items :: "submission list \<Rightarrow> world \<Rightarrow> world \<times> exc option" where
  "run_items [] w = (w, None)"
| "run_items (raw_sub # raw_subs) w = (w, Some NameError)"

text \<open>
  \<^verbatim>\<open>run\<close>; \<open>feed\<close> is what \<^verbatim>\<open>r.get_new(limit=self.limit)\<close> raises or yields.
\<close>

definition run :: "snapshill \<Rightarrow> exc + submission list \<Rightarrow> world \<Rightarrow> world \<times> exc option" where
  "run sn feed w =
     (if \<not> setup_done sn then (w, Some (PyException ''Snapshiller not ready yet!''))
      else (let w1 = issue (GetNew (limit sn)) w
            in case feed of
                 Inl e \<Rightarrow> (w1, Some e)
               | Inr raw_subs \<Rightarrow> run_items raw_subs w1))"

text \<open>
  The loop of lines 422 to 436 over the anchors of a self post, as a function
  of the list \<^verbatim>\<open>archives\<close> and the list \<^verbatim>\<open>finishedURLs\<close>. An anchor is known
  by its \<^verbatim>\<open>href\<close> attribute, which may be missing, and by its children.
  For a URL that is neither skipped nor in \<^verbatim>\<open>finishedURLs\<close>, line 435
  evaluates \<^verbatim>\<open>ArchiveContainer(url, anchor.contents[0])\<close>. The module binds no
  name \<^verbatim>\<open>ArchiveContainer\<close> (there is no such class and no import of one), so
  the call raises \<^verbatim>\<open>NameError\<close> when the name is looked up, before
  \<^verbatim>\<open>anchor.contents[0]\<close> is read and before anything is appended to either
  list. The elements of \<^verbatim>\<open>archives\<close> are of any type.
\<close>

record anchor =
  href :: "string option"
  contents :: "string list"

fun link_loop ::
    "anchor list \<Rightarrow> 'c list \<Rightarrow> string list \<Rightarrow> exc + 'c list \<times> string list" where
  "link_loop [] archs finishedURLs = Inr (archs, finishedURLs)"
| "link_loop (a # as) archs finishedURLs =
     (case href a of
        None \<Rightarrow> Inl KeyError
      | Some h \<Rightarrow>
          (let url = fix_url h in
           if skip_url url then link_loop as archs finishedURLs
           else if url \<in> set finishedURLs then link_loop as archs finishedURLs
           else Inl NameError))"

section \<open>Notions for the proofs about the patterns\<close>

text \<open>
  A pattern without \<^verbatim>\<open>^\<close> and \<^verbatim>\<open>$\<close> matches a prefix of a string whatever
  stands around it; \<open>lang\<close> is the set of the strings such a pattern matches
  in full.
\<close>

fun ctx_free :: "regex \<Rightarrow> bool" where
  "ctx_free Bol = False"
| "ctx_free Eol = False"
| "ctx_free (Lit l) = True"
| "ctx_free (Seq a b) = (ctx_free a \<and> ctx_free b)"
| "ctx_free (Alt a b) = (ctx_free a \<and> ctx_free b)"
| "ctx_free (Opt a) = ctx_free a"
| "ctx_free (Rep lo hi P) = True"

fun lang :: "regex \<Rightarrow> string set" where
  "lang Bol = {}"
| "lang Eol = {}"
| "lang (Lit l) = {l}"
| "lang (Seq a b) = {x @ y | x y. x \<in> lang a \<and> y \<in> lang b}"
| "lang (Alt a b) = lang a \<union> lang b"
| "lang (Opt a) = lang a \<union> {[]}"
| "lang (Rep lo hi P) =
     {y. lo \<le> length y \<and> (\<forall>c\<in>set y. P c)
         \<and> (case hi of None \<Rightarrow> True | Some h \<Rightarrow> length y \<le> h)}"

text \<open>Whether a string holds two slashes in a row.\<close>

fun has_dslash :: "string \<Rightarrow> bool" where
  "has_dslash (a # b # cs) = ((a = CHR ''/'' \<and> b = CHR ''/'') \<or> has_dslash (b # cs))"
| "has_dslash [a] = False"
| "has_dslash [] = False"

text \<open>A text of 10000 characters, for an example of a long notification.\<close>

definition sample_long_text :: string where
  "sample_long_text = replicate 10000 (CHR ''a'')"

section \<open>The worked example of the normaliser\<close>



section \<open>Failure of a provider\<close>

text \<open>
  Claim C3 says that every recoverable error raised during a submission is
  turned into a failed outcome inside the provider. The code of
  \<^verbatim>\<open>ArchiveOrgArchive.archive\<close> does otherwise: whichever of the three
  recoverable exceptions the request raises, the handler itself raises
  \<^verbatim>\<open>NameError\<close>, which leaves the method. The handlers of
  \<^verbatim>\<open>ArchiveIsArchive\<close> and \<^verbatim>\<open>MegalodonJPArchive\<close> return \<^verbatim>\<open>False\<close>.
\<close>

theorem C3_archive_org_handler_raises:
  "snd (ArchiveOrg_archive (\<lambda>c. Inl APIException) now a w) = Inl NameError
   \<and> snd (ArchiveOrg_archive (\<lambda>c. Inl ClientException) now a w) = Inl NameError
   \<and> snd (ArchiveOrg_archive (\<lambda>c. Inl HTTPException) now a w) = Inl NameError
   \<and> snd (ArchiveIs_archive (\<lambda>c. Inl HTTPException) a w) = Inr PyFalse
   \<and> snd (MegalodonJP_archive (\<lambda>c. Inl HTTPException) a w) = Inr PyFalse"
  by (simp add: ArchiveOrg_archive_def ArchiveIs_archive_def MegalodonJP_archive_def
      recoverable_def RECOVERABLE_EXC_def Let_def)

text \<open>
  Claim C4 says that a failed attempt is rendered as a link to the
  provider's resubmission page. The code of \<^verbatim>\<open>_build\<close> does otherwise: for a
  link whose one attempt is \<^verbatim>\<open>False\<close> it raises \<^verbatim>\<open>TypeError\<close> and builds no
  text, and \<^verbatim>\<open>notify\<close> lets the exception pass without posting anything.
\<close>

theorem C4_build_raises_on_failed_attempt:
  "build mrepr rnd
     \<lparr>n_post = p, n_header = h,
      n_links = [\<lparr>l_url = u, l_text = t,
                  archives = [\<lparr>a_site = ArchiveOrg, a_url = u, archived = PyFalse\<rparr>]\<rparr>]\<rparr>
   = Inl TypeError
   \<and> notify rd mrepr rnd
     \<lparr>n_post = p, n_header = h,
      n_links = [\<lparr>l_url = u, l_text = t,
                  archives = [\<lparr>a_site = ArchiveOrg, a_url = u, archived = PyFalse\<rparr>]\<rparr>]\<rparr> w
   = (w, Some TypeError)"
  by (simp add: build_def notify_def recoverable_def RECOVERABLE_EXC_def)

section \<open>The record of a notification\<close>

lemma Post_add_comment_result:
  "snd (Post_add_comment rd p text w) \<noteq> Inr (Some reply)"
  by (simp add: Post_add_comment_def Let_def split: sum.splits)

lemma Post_add_comment_table:
  "links_table (fst (Post_add_comment rd p text w)) = links_table w"
  by (simp add: Post_add_comment_def Let_def issue_def)

lemma post_overflow_result:
  "snd (post_overflow rd p comment w) \<noteq> Inr (Some reply)"
  by (simp add: post_overflow_def Post_add_comment_def Let_def split: sum.splits)

lemma post_overflow_table:
  "links_table (fst (post_overflow rd p comment w)) = links_table w"
  by (simp add: post_overflow_def Post_add_comment_def Let_def issue_def split: sum.splits)

text \<open>
  Claim C5 says that the row of \<^verbatim>\<open>links\<close> is written if and only if the
  comment was posted. The code of \<^verbatim>\<open>notify\<close> does otherwise: it never
  changes the table, whatever reddit answers; and when reddit accepts the
  comment (here for a notification without links and with an empty header),
  the comment is posted and the method ends in \<^verbatim>\<open>AttributeError\<close>, because
  \<^verbatim>\<open>Post.add_comment\<close> returned \<^verbatim>\<open>None\<close>.
\<close>

theorem C5_no_record_after_successful_post:
  "links_table (fst (notify rd mrepr rnd n w)) = links_table w
   \<and> notify (\<lambda>c. Inr reply) mrepr rnd
        \<lparr>n_post = p, n_header = \<lparr>h_subreddit = sr, texts = []\<rparr>, n_links = []\<rparr> w
      = (issue (PostComment (Post_name p)
                  ([CHR 0x0A, CHR 0x0A] @ ''Snapshots:'' @ [CHR 0x0A, CHR 0x0A] @ get_footer)) w,
         Some AttributeError)"
proof
  show "links_table (fst (notify rd mrepr rnd n w)) = links_table w"
  proof (cases "build mrepr rnd n")
    case (Inl e)
    then show ?thesis by (simp add: notify_def)
  next
    case (Inr comment)
    show ?thesis
    proof (cases "length comment > 9999")
      case True
      obtain w' r where pr: "post_overflow rd (n_post n) comment w = (w', r)"
        by (cases "post_overflow rd (n_post n) comment w")
      have "r \<noteq> Inr (Some reply)" for reply
        using post_overflow_result[of rd "n_post n" comment w reply] pr by simp
      moreover have "links_table w' = links_table w"
        using post_overflow_table[of rd "n_post n" comment w] pr by simp
      ultimately show ?thesis
        using Inr True pr by (auto simp: notify_def split: sum.splits option.splits)
    next
      case False
      obtain w' r where pr: "Post_add_comment rd (n_post n) comment w = (w', r)"
        by (cases "Post_add_comment rd (n_post n) comment w")
      have "r \<noteq> Inr (Some reply)" for reply
        using Post_add_comment_result[of rd "n_post n" comment w reply] pr by simp
      moreover have "links_table w' = links_table w"
        using Post_add_comment_table[of rd "n_post n" comment w] pr by simp
      ultimately show ?thesis
        using Inr False pr by (auto simp: notify_def split: sum.splits option.splits)
    qed
  qed
next
  show "notify (\<lambda>c. Inr reply) mrepr rnd
        \<lparr>n_post = p, n_header = \<lparr>h_subreddit = sr, texts = []\<rparr>, n_links = []\<rparr> w
      = (issue (PostComment (Post_name p)
                  ([CHR 0x0A, CHR 0x0A] @ ''Snapshots:'' @ [CHR 0x0A, CHR 0x0A] @ get_footer)) w,
         Some AttributeError)"
    by (simp add: notify_def build_def Header_get_def Post_add_comment_def Let_def
        get_footer_def INFO_def CONTACT_def)
qed

section \<open>The dedup gate and the links of a self post\<close>

text \<open>
  Claim C1 says that a run cycle checks the table \<^verbatim>\<open>links\<close> for every item it
  fetches, before any provider runs, and skips an item that has a row. The
  code of \<^verbatim>\<open>run\<close> does otherwise: once set up, for every feed that is not
  empty it issues the fetch and nothing else, and ends in \<^verbatim>\<open>NameError\<close> at
  line 403; it never selects from \<^verbatim>\<open>links\<close>, for the first item or any later
  one. The method \<^verbatim>\<open>Post.should_notify\<close>, which \<^verbatim>\<open>run\<close> does not call, does
  answer \<^verbatim>\<open>False\<close> for an item that has a row.
\<close>

theorem C1_run_ends_before_dedup_check:
  "run (sn\<lparr>setup_done := True\<rparr>) (Inr (item # raw_subs)) w
     = (issue (GetNew (limit sn)) w, Some NameError)
   \<and> calls (fst (run (sn\<lparr>setup_done := True\<rparr>) (Inr (item # raw_subs)) w))
     = calls w @ [GetNew (limit sn)]
   \<and> snd (should_notify (Post_init item)
            \<lparr>calls = cs, links_table = (s_name item, reply) # rows\<rparr>) = False"
  by (simp add: run_def issue_def Let_def should_notify_def Post_init_def Post_name_def)

lemma link_loop_appends_nothing:
  "link_loop as archs fin \<in> {Inr (archs, fin), Inl KeyError, Inl NameError}"
  by (induction as) (auto simp: Let_def split: option.splits)

text \<open>
  Claim C9 says that every distinct normalised URL of the body yields one
  container and that a second occurrence is skipped. The code of the loop
  does otherwise: at the first anchor whose URL is not skipped it raises
  \<^verbatim>\<open>NameError\<close> at line 435 (here for a link that occurs twice), and on
  every list of anchors it either raises or returns the two lists as they
  were, so no container is ever made.
\<close>

theorem C9_loop_raises_at_first_link:
  "link_loop
     [\<lparr>href = Some ''http://example.com/a'', contents = [''first'']\<rparr>,
      \<lparr>href = Some ''http://example.com/a'', contents = [''second'']\<rparr>]
     archs [] = Inl NameError
   \<and> link_loop as archs fin \<in> {Inr (archs, fin), Inl KeyError, Inl NameError}"
proof
  have ns: "skip_url (fix_url ''http://example.com/a'') = False"
    by code_simp
  show "link_loop
     [\<lparr>href = Some ''http://example.com/a'', contents = [''first'']\<rparr>,
      \<lparr>href = Some ''http://example.com/a'', contents = [''second'']\<rparr>]
     archs [] = Inl NameError"
    by (simp add: Let_def ns)
next
  show "link_loop as archs fin \<in> {Inr (archs, fin), Inl KeyError, Inl NameError}"
    by (rule link_loop_appends_nothing)
qed

lemma parse_quotes_nonempty: "q \<in> set (parse_quotes s) \<Longrightarrow> q \<noteq> []"
  by (auto simp: parse_quotes_def)

lemma Header_init_texts_nonempty:
  "Header_init settings wiki sr = Inr h \<Longrightarrow> q \<in> set (texts h) \<Longrightarrow> q \<noteq> []"
  by (auto simp: Header_init_def dest: parse_quotes_nonempty split: option.splits sum.splits if_splits)

text \<open>
  Claim C10: when the fetch of the wiki page raises a recoverable exception,
  the constructor of \<^verbatim>\<open>Header\<close> returns a header whose pool is empty; and
  for every header the constructor returns, \<^verbatim>\<open>get\<close> returns the empty
  string exactly when the pool is empty and a text of the pool otherwise,
  whatever the random draw.
\<close>

theorem C10_header_total:
  "(recoverable e \<longrightarrow> Header_init None (Inl e) sr = Inr \<lparr>h_subreddit = sr, texts = []\<rparr>)
   \<and> (Header_init settings wiki sr = Inr h \<longrightarrow>
        (Header_get h rnd = [] \<longleftrightarrow> texts h = [])
        \<and> (texts h \<noteq> [] \<longrightarrow> Header_get h rnd \<in> set (texts h)))"
proof (intro conjI impI)
  assume "recoverable e"
  then show "Header_init None (Inl e) sr = Inr \<lparr>h_subreddit = sr, texts = []\<rparr>"
    by (simp add: Header_init_def)
next
  assume h: "Header_init settings wiki sr = Inr h"
  have mem: "texts h \<noteq> [] \<Longrightarrow> Header_get h rnd \<in> set (texts h)"
    by (simp add: Header_get_def)
  show "Header_get h rnd = [] \<longleftrightarrow> texts h = []"
  proof
    assume g: "Header_get h rnd = []"
    show "texts h = []"
    proof (rule ccontr)
      assume "texts h \<noteq> []"
      then have "Header_get h rnd \<in> set (texts h)" by (rule mem)
      then have "Header_get h rnd \<noteq> []" by (rule Header_init_texts_nonempty[OF h])
      then show False using g by simp
    qed
  next
    assume "texts h = []"
    then show "Header_get h rnd = []" by (simp add: Header_get_def)
  qed
  assume "texts h \<noteq> []"
  then show "Header_get h rnd \<in> set (texts h)" by (rule mem)
qed

text \<open>
  Claim C10 at a failing fetch and at a page of two texts.
\<close>

theorem C10_header_total_witness:
  "recoverable HTTPException
   \<and> Header_init None (Inl HTTPException) ''all'' = Inr \<lparr>h_subreddit = ''all'', texts = []\<rparr>
   \<and> Header_init None (Inr (''hello'' @ [CHR 0x0D, CHR 0x0A] @ ''---'' @ [CHR 0x0D, CHR 0x0A] @ '' world ''))
        ''all'' = Inr \<lparr>h_subreddit = ''all'', texts = [''hello'', ''world'']\<rparr>
   \<and> Header_get \<lparr>h_subreddit = ''all'', texts = [''hello'', ''world'']\<rparr> 3 = ''world''
   \<and> Header_get \<lparr>h_subreddit = ''all'', texts = [''hello'', ''world'']\<rparr> 3
        \<in> set (texts \<lparr>h_subreddit = ''all'', texts = [''hello'', ''world'']\<rparr>)"
proof -
  have r: "recoverable HTTPException"
    by (simp add: recoverable_def RECOVERABLE_EXC_def)
  have i: "Header_init None (Inr (''hello'' @ [CHR 0x0D, CHR 0x0A] @ ''---'' @ [CHR 0x0D, CHR 0x0A] @ '' world ''))
        ''all'' = Inr \<lparr>h_subreddit = ''all'', texts = [''hello'', ''world'']\<rparr>"
    by code_simp
  have g: "Header_get \<lparr>h_subreddit = ''all'', texts = [''hello'', ''world'']\<rparr> 3 = ''world''"
    by code_simp
  show ?thesis
    using r i g
      C10_header_total [of HTTPException "''all''" None
        "Inr (''hello'' @ [CHR 0x0D, CHR 0x0A] @ ''---'' @ [CHR 0x0D, CHR 0x0A] @ '' world '')"
        "\<lparr>h_subreddit = ''all'', texts = [''hello'', ''world'']\<rparr>" 3]
    by simp
qed

section \<open>The overflow policy\<close>

lemma sample_long_text_length: "length sample_long_text = 10000"
  by (simp only: sample_long_text_def length_replicate)

text \<open>
  Claim C2: let \<^verbatim>\<open>_build\<close> return a text. If the text has at most 9999
  characters, \<^verbatim>\<open>notify\<close> posts it as one comment on the item and makes no
  other call. If it is longer, \<^verbatim>\<open>notify\<close> submits the text, cut to 39999
  characters, to SnapshillBotEx; then comments on the new submission with
  the permalink of the item; then posts the short comment with the URL of
  the new submission on the item: these three calls when reddit accepts the
  first two, and only the calls up to the one that reddit refuses otherwise.
\<close>

theorem C2_overflow_policy:
  assumes "build mrepr rnd n = Inr text"
  shows "(length text \<le> 9999 \<longrightarrow>
            calls (fst (notify rd mrepr rnd n w))
            = calls w @ [PostComment (Post_name (n_post n)) text])
     \<and> (length text > 9999
          \<and> rd (Submit ''SnapshillBotEx'' (''Archives for '' @ Post_permalink (n_post n))
                   (take 39999 text)) = Inr sub_url
          \<and> rd (SubmissionComment sub_url
                   (''The original submission can be found here:'' @ [CHR 0x0A, CHR 0x0A]
                    @ Post_permalink (n_post n))) = Inr created \<longrightarrow>
            calls (fst (notify rd mrepr rnd n w))
            = calls w @
              [Submit ''SnapshillBotEx'' (''Archives for '' @ Post_permalink (n_post n))
                 (take 39999 text),
               SubmissionComment sub_url
                 (''The original submission can be found here:'' @ [CHR 0x0A, CHR 0x0A]
                  @ Post_permalink (n_post n)),
               PostComment (Post_name (n_post n))
                 (''Wow, that's a lot of links! The snapshots can be [found here.](''
                  @ sub_url @ '')'' @ [CHR 0x0A, CHR 0x0A] @ get_footer)])
     \<and> (length text > 9999
          \<and> rd (Submit ''SnapshillBotEx'' (''Archives for '' @ Post_permalink (n_post n))
                   (take 39999 text)) = Inr sub_url
          \<and> rd (SubmissionComment sub_url
                   (''The original submission can be found here:'' @ [CHR 0x0A, CHR 0x0A]
                    @ Post_permalink (n_post n))) = Inl e \<longrightarrow>
            calls (fst (notify rd mrepr rnd n w))
            = calls w @
              [Submit ''SnapshillBotEx'' (''Archives for '' @ Post_permalink (n_post n))
                 (take 39999 text),
               SubmissionComment sub_url
                 (''The original submission can be found here:'' @ [CHR 0x0A, CHR 0x0A]
                  @ Post_permalink (n_post n))])
     \<and> (length text > 9999
          \<and> rd (Submit ''SnapshillBotEx'' (''Archives for '' @ Post_permalink (n_post n))
                   (take 39999 text)) = Inl e \<longrightarrow>
            calls (fst (notify rd mrepr rnd n w))
            = calls w @
              [Submit ''SnapshillBotEx'' (''Archives for '' @ Post_permalink (n_post n))
                 (take 39999 text)])"
  using assms
  by (auto simp: notify_def post_overflow_def Post_add_comment_def Let_def issue_def
      split: sum.splits)

text \<open>
  Claim C2 at a header of 10000 characters, with reddit accepting every call,
  and at an empty header.
\<close>

theorem C2_overflow_policy_witness:
  "calls (fst (notify (\<lambda>c. Inr ''http://redd.it/b'') (\<lambda>a. ''name'') 0
       \<lparr>n_post = Post_init \<lparr>s_name = ''t3_a'', s_permalink = ''/r/x/comments/a/'',
                             s_url = ''http://example.com/'', is_self = False,
                             selftext_html = None\<rparr>,
        n_header = \<lparr>h_subreddit = ''all'', texts = [sample_long_text]\<rparr>,
        n_links = []\<rparr>
       \<lparr>calls = [], links_table = []\<rparr>))
   = [Submit ''SnapshillBotEx'' ''Archives for /r/x/comments/a/''
        (take 39999 (sample_long_text @ [CHR 0x0A, CHR 0x0A] @ ''Snapshots:''
                     @ [CHR 0x0A, CHR 0x0A] @ get_footer)),
      SubmissionComment ''http://redd.it/b''
        (''The original submission can be found here:'' @ [CHR 0x0A, CHR 0x0A]
         @ ''/r/x/comments/a/''),
      PostComment ''t3_a''
        (''Wow, that's a lot of links! The snapshots can be [found here.](''
         @ ''http://redd.it/b'' @ '')'' @ [CHR 0x0A, CHR 0x0A] @ get_footer)]
   \<and> calls (fst (notify (\<lambda>c. Inr ''t1_c'') (\<lambda>a. ''name'') 0
       \<lparr>n_post = Post_init \<lparr>s_name = ''t3_a'', s_permalink = ''/r/x/comments/a/'',
                             s_url = ''http://example.com/'', is_self = False,
                             selftext_html = None\<rparr>,
        n_header = \<lparr>h_subreddit = ''all'', texts = []\<rparr>,
        n_links = []\<rparr>
       \<lparr>calls = [], links_table = []\<rparr>))
   = [PostComment ''t3_a''
        ([CHR 0x0A, CHR 0x0A] @ ''Snapshots:'' @ [CHR 0x0A, CHR 0x0A] @ get_footer)]"
proof -
  let ?p = "Post_init \<lparr>s_name = ''t3_a'', s_permalink = ''/r/x/comments/a/'',
                             s_url = ''http://example.com/'', is_self = False,
                             selftext_html = None\<rparr>"
  let ?long = "sample_long_text @ [CHR 0x0A, CHR 0x0A] @ ''Snapshots:''
                     @ [CHR 0x0A, CHR 0x0A] @ get_footer"
  let ?short = "[CHR 0x0A, CHR 0x0A] @ ''Snapshots:'' @ [CHR 0x0A, CHR 0x0A] @ get_footer"
  have ne: "sample_long_text \<noteq> []"
    using sample_long_text_length by auto
  have b1: "build (\<lambda>a. ''name'') 0
       \<lparr>n_post = ?p, n_header = \<lparr>h_subreddit = ''all'', texts = [sample_long_text]\<rparr>,
        n_links = []\<rparr> = Inr ?long"
    using ne by (cases sample_long_text) (simp_all add: build_def Header_get_def)
  have b2: "build (\<lambda>a. ''name'') 0
       \<lparr>n_post = ?p, n_header = \<lparr>h_subreddit = ''all'', texts = []\<rparr>,
        n_links = []\<rparr> = Inr ?short"
    by (simp add: build_def Header_get_def)
  have l1: "length ?long > 9999"
    by (simp add: sample_long_text_length)
  have l2: "length ?short \<le> 9999"
    by (simp add: get_footer_def INFO_def CONTACT_def)
  have pn: "Post_name ?p = ''t3_a''" "Post_permalink ?p = ''/r/x/comments/a/''"
    by (simp_all add: Post_name_def Post_permalink_def Post_init_def)
  show ?thesis
    using C2_overflow_policy [OF b1, where rd = "\<lambda>c. Inr ''http://redd.it/b''"
             and sub_url = "''http://redd.it/b''" and created = "''http://redd.it/b''"
             and w = "\<lparr>calls = [], links_table = []\<rparr>"]
          C2_overflow_policy [OF b2, where rd = "\<lambda>c. Inr ''t1_c''"
             and w = "\<lparr>calls = [], links_table = []\<rparr>"]
          l1 l2 pn
    by simp
qed

section \<open>What the matcher computes\<close>

lemma lit_rest_iff: "lit_rest l s = Some r \<longleftrightarrow> s = l @ r"
  by (induction l s rule: lit_rest.induct) auto

lemma rests_Lit: "r \<in> set (rmatch n (Lit l) s) \<longleftrightarrow> s = l @ r"
  using lit_rest_iff[of l s r] by (cases "lit_rest l s") auto

lemma rests_Seq:
  "r \<in> set (rmatch n (Seq a b) s) \<longleftrightarrow> (\<exists>m \<in> set (rmatch n a s). r \<in> set (rmatch n b m))"
  by auto

lemma rests_Alt:
  "r \<in> set (rmatch n (Alt a b) s) \<longleftrightarrow> r \<in> set (rmatch n a s) \<or> r \<in> set (rmatch n b s)"
  by auto

lemma rests_Opt: "r \<in> set (rmatch n (Opt a) s) \<longleftrightarrow> r \<in> set (rmatch n a s) \<or> r = s"
  by auto

lemma rests_Eol: "r \<in> set (rmatch n Eol s) \<longleftrightarrow> r = s \<and> (s = [] \<or> s = [CHR 0x0A])"
  by auto

lemma rests_Bol: "r \<in> set (rmatch n Bol s) \<longleftrightarrow> r = s \<and> length s = n"
  by auto

lemma takeWhile_all_append: "\<forall>c\<in>set y. P c \<Longrightarrow> takeWhile P (y @ r) = y @ takeWhile P r"
  by (induction y) auto

lemma rests_Rep:
  "r \<in> set (rmatch n (Rep lo hi P) s) \<longleftrightarrow>
     (\<exists>y. s = y @ r \<and> lo \<le> length y \<and> (\<forall>c\<in>set y. P c)
          \<and> (case hi of None \<Rightarrow> True | Some h \<Rightarrow> length y \<le> h))"
  (is "?L \<longleftrightarrow> ?R")
proof
  assume ?L
  then obtain k where k: "r = drop k s" "lo \<le> k" "k \<le> length (takeWhile P s)"
      "case hi of None \<Rightarrow> True | Some h \<Rightarrow> k \<le> h"
    by (auto simp: Let_def split: option.splits)
  have len: "k \<le> length s"
    using k(3) length_takeWhile_le[of P s] by linarith
  have "take k s = take k (takeWhile P s @ dropWhile P s)" by simp
  also have "\<dots> = take k (takeWhile P s)" using k(3) by (simp only: take_append) simp
  finally have "set (take k s) \<subseteq> set (takeWhile P s)"
    by (simp add: set_take_subset)
  then have allP: "\<forall>c\<in>set (take k s). P c"
    by (auto dest: set_takeWhileD)
  have "s = take k s @ r" using k(1) by simp
  moreover have "length (take k s) = k" using len by simp
  ultimately show ?R using k(2,4) allP
    by (intro exI[of _ "take k s"]) (auto split: option.splits)
next
  assume ?R
  then obtain y where y: "s = y @ r" "lo \<le> length y" "\<forall>c\<in>set y. P c"
      "case hi of None \<Rightarrow> True | Some h \<Rightarrow> length y \<le> h"
    by blast
  have "length y \<le> length (takeWhile P s)"
    using y(1,3) by (simp add: takeWhile_all_append)
  moreover have "r = drop (length y) s" using y(1) by simp
  ultimately show ?L using y(2,4)
    by (auto simp: Let_def image_iff split: option.splits intro!: bexI[of _ "length y"])
qed

lemma rests_lang:
  "ctx_free a \<Longrightarrow> r \<in> set (rmatch n a s) \<longleftrightarrow> (\<exists>m \<in> lang a. s = m @ r)"
proof (induction a arbitrary: r s)
  case (Lit l)
  show ?case by (simp only: rests_Lit) auto
next
  case (Seq a b)
  then show ?case
    by (simp only: rests_Seq) (fastforce simp: Bex_def)
next
  case (Alt a b)
  then show ?case by (simp only: rests_Alt) auto
next
  case (Opt a)
  then show ?case by (simp only: rests_Opt) auto
next
  case (Rep lo hi P)
  show ?case by (simp only: rests_Rep) auto
qed simp_all

lemma rmatch_ctx_free: "ctx_free a \<Longrightarrow> rmatch n a s = rmatch 0 a s"
proof (induction a arbitrary: s)
  case (Seq a b)
  then show ?case by (simp cong: map_cong)
qed simp_all

lemma REDDIT_ctx_free: "ctx_free REDDIT_PATTERN"
  by (simp add: REDDIT_PATTERN_def)

lemma REDDIT_canonical:
  "rmatch n REDDIT_PATTERN (''http://www.reddit.com'' @ y) = [y]"
  by (simp add: REDDIT_PATTERN_def cls_Az_def Let_def)

section \<open>The matches of \<^verbatim>\<open>REDDIT_PATTERN\<close>\<close>

lemma cls_Az_colon: "cls_Az c \<Longrightarrow> c \<noteq> CHR '':''"
  by (auto simp: cls_Az_def)

lemma lang_SeqE:
  assumes "m \<in> lang (Seq a b)"
  obtains x y where "m = x @ y" "x \<in> lang a" "y \<in> lang b"
  using assms by auto

lemma lang_Opt_LitE:
  assumes "m \<in> lang (Opt (Lit l))"
  shows "m = l \<or> m = []"
  using assms by auto

lemma Rep_Az_no_colon:
  assumes "y \<in> lang (Rep lo hi cls_Az)"
  shows "CHR '':'' \<notin> set y"
proof
  assume "CHR '':'' \<in> set y"
  moreover have "\<forall>c\<in>set y. cls_Az c" using assms by simp
  ultimately have "cls_Az (CHR '':'')" by blast
  then show False by (simp add: cls_Az_def)
qed

lemma lang_AltE:
  assumes "m \<in> lang (Alt a b)"
  shows "m \<in> lang a \<or> m \<in> lang b"
  using assms by simp

lemma lang_LitD: "m \<in> lang (Lit l) \<Longrightarrow> m = l"
  by simp

lemma REDDIT_lang_prefix_no_colon:
  assumes "x \<in> lang (Seq (Rep 2 (Some 2) cls_Az)
                      (Opt (Seq (Lit ''-'') (Rep 2 (Some 2) cls_Az))))"
  shows "CHR '':'' \<notin> set x"
proof -
  from assms obtain a b where x: "x = a @ b" and a: "a \<in> lang (Rep 2 (Some 2) cls_Az)"
    and b: "b \<in> lang (Opt (Seq (Lit ''-'') (Rep 2 (Some 2) cls_Az)))"
    by (rule lang_SeqE)
  have na: "CHR '':'' \<notin> set a" using a by (rule Rep_Az_no_colon)
  from b have "b = [] \<or> b \<in> lang (Seq (Lit ''-'') (Rep 2 (Some 2) cls_Az))"
    by (simp only: lang.simps) blast
  then have "CHR '':'' \<notin> set b"
  proof
    assume "b = []" then show ?thesis by simp
  next
    assume "b \<in> lang (Seq (Lit ''-'') (Rep 2 (Some 2) cls_Az))"
    then obtain d e where de: "b = d @ e" "d \<in> lang (Lit ''-'')"
      "e \<in> lang (Rep 2 (Some 2) cls_Az)"
      by (rule lang_SeqE)
    have "d = ''-''" using de(2) by (rule lang_LitD)
    moreover have "CHR '':'' \<notin> set e" using de(3) by (rule Rep_Az_no_colon)
    ultimately show ?thesis using de(1) by simp
  qed
  then show ?thesis using na x by simp
qed

lemma REDDIT_prefix_no_colon:
  assumes "pre \<in> lang (Alt (Seq (Rep 2 (Some 2) cls_Az)
                      (Opt (Seq (Lit ''-'') (Rep 2 (Some 2) cls_Az))))
            (Alt (Lit ''beta'') (Alt (Lit ''i'') (Alt (Lit ''m'')
            (Alt (Lit ''pay'') (Alt (Lit ''ssl'') (Lit ''www'')))))))"
  shows "CHR '':'' \<notin> set pre"
proof -
  from assms have
    "pre \<in> lang (Seq (Rep 2 (Some 2) cls_Az)
                      (Opt (Seq (Lit ''-'') (Rep 2 (Some 2) cls_Az))))
     \<or> pre = ''beta'' \<or> pre = ''i'' \<or> pre = ''m'' \<or> pre = ''pay'' \<or> pre = ''ssl''
     \<or> pre = ''www''"
    by (simp only: lang.simps(3,5) Un_iff singleton_iff)
  then show ?thesis
    using REDDIT_lang_prefix_no_colon[of pre] by (elim disjE) simp_all
qed

lemma REDDIT_shape:
  assumes "m \<in> lang REDDIT_PATTERN"
  shows "\<exists>sch body. m = sch @ ''://'' @ body \<and> (sch = ''http'' \<or> sch = ''https'')
           \<and> CHR '':'' \<notin> set body \<and> body \<noteq> [] \<and> last body = CHR ''m''"
proof -
  from assms[unfolded REDDIT_PATTERN_def]
  obtain x1 r1 where 1: "m = x1 @ r1" "x1 \<in> lang (Lit ''http'')"
    and r1: "r1 \<in> lang (Seq (Opt (Lit ''s'')) (Seq (Lit ''://'')
       (Seq (Alt (Seq (Rep 2 (Some 2) cls_Az)
                      (Opt (Seq (Lit ''-'') (Rep 2 (Some 2) cls_Az))))
            (Alt (Lit ''beta'') (Alt (Lit ''i'') (Alt (Lit ''m'')
            (Alt (Lit ''pay'') (Alt (Lit ''ssl'') (Lit ''www'')))))))
       (Seq (Opt (Lit ''.'')) (Lit ''reddit.com'')))))"
    by (rule lang_SeqE)
  from r1 obtain o1 r2 where 2: "r1 = o1 @ r2" "o1 \<in> lang (Opt (Lit ''s''))"
    and r2: "r2 \<in> lang (Seq (Lit ''://'')
       (Seq (Alt (Seq (Rep 2 (Some 2) cls_Az)
                      (Opt (Seq (Lit ''-'') (Rep 2 (Some 2) cls_Az))))
            (Alt (Lit ''beta'') (Alt (Lit ''i'') (Alt (Lit ''m'')
            (Alt (Lit ''pay'') (Alt (Lit ''ssl'') (Lit ''www'')))))))
       (Seq (Opt (Lit ''.'')) (Lit ''reddit.com''))))"
    by (rule lang_SeqE)
  from r2 obtain x3 r3 where 3: "r2 = x3 @ r3" "x3 \<in> lang (Lit ''://'')"
    and r3: "r3 \<in> lang (Seq (Alt (Seq (Rep 2 (Some 2) cls_Az)
                      (Opt (Seq (Lit ''-'') (Rep 2 (Some 2) cls_Az))))
            (Alt (Lit ''beta'') (Alt (Lit ''i'') (Alt (Lit ''m'')
            (Alt (Lit ''pay'') (Alt (Lit ''ssl'') (Lit ''www'')))))))
       (Seq (Opt (Lit ''.'')) (Lit ''reddit.com'')))"
    by (rule lang_SeqE)
  from r3 obtain pre r4 where 4: "r3 = pre @ r4"
    and pre: "pre \<in> lang (Alt (Seq (Rep 2 (Some 2) cls_Az)
                      (Opt (Seq (Lit ''-'') (Rep 2 (Some 2) cls_Az))))
            (Alt (Lit ''beta'') (Alt (Lit ''i'') (Alt (Lit ''m'')
            (Alt (Lit ''pay'') (Alt (Lit ''ssl'') (Lit ''www'')))))))"
    and r4: "r4 \<in> lang (Seq (Opt (Lit ''.'')) (Lit ''reddit.com''))"
    by (rule lang_SeqE)
  from r4 obtain dot x5 where 5: "r4 = dot @ x5" "dot \<in> lang (Opt (Lit ''.''))"
    "x5 \<in> lang (Lit ''reddit.com'')"
    by (rule lang_SeqE)
  have x1: "x1 = ''http''" using 1(2) by (rule lang_LitD)
  have x3: "x3 = ''://''" using 3(2) by (rule lang_LitD)
  have x5: "x5 = ''reddit.com''" using 5(3) by (rule lang_LitD)
  have o1: "o1 = ''s'' \<or> o1 = []" using 2(2) by (rule lang_Opt_LitE)
  have dot: "dot = ''.'' \<or> dot = []" using 5(2) by (rule lang_Opt_LitE)
  define body where "body = pre @ dot @ ''reddit.com''"
  have "CHR '':'' \<notin> set pre"
    using pre by (rule REDDIT_prefix_no_colon)
  then have nc: "CHR '':'' \<notin> set body"
    using dot unfolding body_def by auto
  have m: "m = (''http'' @ o1) @ ''://'' @ body"
    unfolding body_def 1(1) 2(1) 3(1) 4 5(1) x1 x3 x5 by simp
  have sch: "''http'' @ o1 = ''http'' \<or> ''http'' @ o1 = ''https''"
    using o1 by auto
  have l: "last body = CHR ''m''" unfolding body_def by simp
  have ne: "body \<noteq> []" unfolding body_def by simp
  from m sch nc ne l show ?thesis by blast
qed

lemma prefix_http_last:
  assumes "prefix us ''http''" "us \<noteq> []"
  shows "last us \<noteq> CHR ''m''"
proof -
  from assms have "us = ''h'' \<or> us = ''ht'' \<or> us = ''htt'' \<or> us = ''http''"
    by (auto simp: prefix_Cons)
  then show ?thesis by auto
qed

lemma REDDIT_no_straddle:
  assumes m: "m \<in> lang REDDIT_PATTERN"
    and ne: "pfx \<noteq> []"
    and eq: "pfx @ ''http://www.reddit.com'' @ y = m @ r"
  shows "\<exists>r'. pfx = m @ r'"
proof -
  let ?P = "\<lambda>c. c \<noteq> CHR '':''"
  from REDDIT_shape[OF m] obtain sch body where
    ms: "m = sch @ ''://'' @ body" and sch: "sch = ''http'' \<or> sch = ''https''"
    and nc: "CHR '':'' \<notin> set body" and bne: "body \<noteq> []" and lm: "last body = CHR ''m''"
    by blast
  have tw_http: "takeWhile ?P (''http://www.reddit.com'' @ z) = ''http''" for z
    by simp
  have rhs1: "takeWhile ?P (m @ r) = sch"
    using sch unfolding ms by auto
  have colon: "CHR '':'' \<in> set pfx"
  proof (rule ccontr)
    assume "CHR '':'' \<notin> set pfx"
    then have "takeWhile ?P (pfx @ ''http://www.reddit.com'' @ y) = pfx @ ''http''"
      by (subst takeWhile_append2) (auto simp only: tw_http)
    then have "sch = pfx @ ''http''" using rhs1 eq by simp
    then show False using sch ne by (cases pfx) auto
  qed
  then have "takeWhile ?P (pfx @ ''http://www.reddit.com'' @ y) = takeWhile ?P pfx"
    using takeWhile_append1[of "CHR '':''" pfx ?P] by simp
  then have tw: "takeWhile ?P pfx = sch" using rhs1 eq by simp
  have "dropWhile ?P pfx \<noteq> []" using colon by (auto simp: dropWhile_eq_Nil_conv)
  then obtain d p1 where d: "dropWhile ?P pfx = d # p1" by (cases "dropWhile ?P pfx") auto
  have "\<not> ?P d" using hd_dropWhile[of ?P pfx] d by auto
  then have dc: "d = CHR '':''" by simp
  have pfx: "pfx = sch @ CHR '':'' # p1"
    using takeWhile_dropWhile_id[of ?P pfx] tw d dc by simp
  have eq2: "p1 @ ''http://www.reddit.com'' @ y = ''//'' @ body @ r"
    using eq unfolding pfx ms by simp
  obtain p2 where p1: "p1 = ''//'' @ p2"
  proof (cases p1)
    case Nil
    then show ?thesis using eq2 by simp
  next
    case (Cons a q)
    show ?thesis
    proof (cases q)
      case Nil
      then show ?thesis using eq2 Cons by simp
    next
      case (Cons b q')
      then show ?thesis using eq2 \<open>p1 = a # q\<close> that[of q'] by simp
    qed
  qed
  have eq3: "p2 @ ''http://www.reddit.com'' @ y = body @ r"
    using eq2 unfolding p1 by simp
  have rhs3: "takeWhile ?P (body @ r) = body @ takeWhile ?P r"
    using nc by (intro takeWhile_append2) auto
  have "prefix (takeWhile ?P (p2 @ ''http://www.reddit.com'' @ y)) (p2 @ ''http'')"
  proof (cases "CHR '':'' \<in> set p2")
    case True
    then have "takeWhile ?P (p2 @ ''http://www.reddit.com'' @ y) = takeWhile ?P p2"
      using takeWhile_append1[of "CHR '':''" p2 ?P] by simp
    moreover have "prefix (takeWhile ?P p2) p2"
      by (metis prefixI takeWhile_dropWhile_id)
    ultimately show ?thesis by (simp add: prefix_prefix)
  next
    case False
    then have "takeWhile ?P (p2 @ ''http://www.reddit.com'' @ y) = p2 @ ''http''"
      by (subst takeWhile_append2) (auto simp only: tw_http)
    then show ?thesis by simp
  qed
  then have "prefix (body @ takeWhile ?P r) (p2 @ ''http'')"
    using eq3 rhs3 by simp
  then have pb: "prefix body (p2 @ ''http'')"
    using append_prefixD by blast
  have "prefix body p2"
  proof (rule ccontr)
    assume np: "\<not> prefix body p2"
    with pb obtain us where us: "body = p2 @ us" "prefix us ''http''"
      by (auto simp: prefix_append)
    have "us \<noteq> []" using np us(1) by auto
    then have "last us \<noteq> CHR ''m''" using us(2) prefix_http_last by blast
    moreover have "last body = last us" using us(1) \<open>us \<noteq> []\<close> by simp
    ultimately show False using lm by simp
  qed
  then obtain r' where "p2 = body @ r'" by (auto simp: prefix_def)
  then have "pfx = m @ r'" unfolding pfx p1 ms by simp
  then show ?thesis ..
qed

section \<open>The substitution of the canonical host\<close>

lemma REDDIT_match_iff:
  "rmatch n REDDIT_PATTERN s \<noteq> [] \<longleftrightarrow> (\<exists>m\<in>lang REDDIT_PATTERN. \<exists>r. s = m @ r)"
proof -
  have "rmatch n REDDIT_PATTERN s \<noteq> [] \<longleftrightarrow> (\<exists>r. r \<in> set (rmatch n REDDIT_PATTERN s))"
    by (cases "rmatch n REDDIT_PATTERN s") auto
  also have "\<dots> \<longleftrightarrow> (\<exists>m\<in>lang REDDIT_PATTERN. \<exists>r. s = m @ r)"
    by (simp only: rests_lang[OF REDDIT_ctx_free]) blast
  finally show ?thesis .
qed

lemma REDDIT_lang_nonempty: "m \<in> lang REDDIT_PATTERN \<Longrightarrow> m \<noteq> []"
  using REDDIT_shape[of m] by auto

lemma REDDIT_rest_shorter:
  assumes "x \<in> set (rmatch n REDDIT_PATTERN s)"
  shows "length x < length s"
proof -
  from assms obtain m where "m \<in> lang REDDIT_PATTERN" "s = m @ x"
    by (auto simp only: rests_lang[OF REDDIT_ctx_free])
  then show ?thesis using REDDIT_lang_nonempty[of m] by simp
qed

lemma REDDIT_no_match_Nil: "rmatch n REDDIT_PATTERN [] = []"
  using REDDIT_rest_shorter[of _ n "[]"] by (cases "rmatch n REDDIT_PATTERN []") auto

lemma rsub_Nil: "sub_from n REDDIT_PATTERN repl [] = []"
  by (simp add: REDDIT_no_match_Nil)

lemma rsub_no_match:
  "rmatch n REDDIT_PATTERN (c # cs) = [] \<Longrightarrow>
     sub_from n REDDIT_PATTERN repl (c # cs) = c # sub_from n REDDIT_PATTERN repl cs"
  by simp

lemma rsub_match:
  assumes "rmatch n REDDIT_PATTERN (c # cs) = x # xs"
  shows "sub_from n REDDIT_PATTERN repl (c # cs) = repl @ sub_from n REDDIT_PATTERN repl x"
proof -
  have "x \<in> set (rmatch n REDDIT_PATTERN (c # cs))" using assms by simp
  then have "length x < Suc (length cs)" using REDDIT_rest_shorter by fastforce
  then show ?thesis using assms by simp
qed

lemma rsub_canonical:
  "sub_from n REDDIT_PATTERN repl (''http://www.reddit.com'' @ y)
   = repl @ sub_from n REDDIT_PATTERN repl y"
proof -
  have "rmatch n REDDIT_PATTERN (CHR ''h'' # ''ttp://www.reddit.com'' @ y) = [y]"
    using REDDIT_canonical[of n y] by simp
  then have "sub_from n REDDIT_PATTERN repl (CHR ''h'' # ''ttp://www.reddit.com'' @ y)
      = repl @ sub_from n REDDIT_PATTERN repl y"
    by (rule rsub_match)
  then show ?thesis by simp
qed

lemma rsub_no_new_match:
  "rmatch n REDDIT_PATTERN (pfx @ sub_from n REDDIT_PATTERN ''http://www.reddit.com'' cs) \<noteq> []
   \<Longrightarrow> rmatch n REDDIT_PATTERN (pfx @ cs) \<noteq> []"
proof (induction "length cs" arbitrary: cs pfx rule: less_induct)
  case less
  show ?case
  proof (cases cs)
    case Nil
    then show ?thesis using less.prems by (simp add: REDDIT_no_match_Nil)
  next
    case (Cons c cs')
    show ?thesis
    proof (cases "rmatch n REDDIT_PATTERN (c # cs')")
      case Nil
      then have "sub_from n REDDIT_PATTERN ''http://www.reddit.com'' cs
          = c # sub_from n REDDIT_PATTERN ''http://www.reddit.com'' cs'"
        using Cons by (simp only: rsub_no_match)
      then have "rmatch n REDDIT_PATTERN
          ((pfx @ [c]) @ sub_from n REDDIT_PATTERN ''http://www.reddit.com'' cs') \<noteq> []"
        using less.prems by simp
      then have "rmatch n REDDIT_PATTERN ((pfx @ [c]) @ cs') \<noteq> []"
        using less.hyps[of cs' "pfx @ [c]"] Cons by simp
      then show ?thesis using Cons by simp
    next
      case (Cons x xs)
      note mx = this
      show ?thesis
      proof (cases "pfx = []")
        case True
        then show ?thesis using mx \<open>cs = c # cs'\<close> by simp
      next
        case False
        have "sub_from n REDDIT_PATTERN ''http://www.reddit.com'' cs
          = ''http://www.reddit.com'' @ sub_from n REDDIT_PATTERN ''http://www.reddit.com'' x"
          using mx \<open>cs = c # cs'\<close> by (simp only: rsub_match)
        then have "rmatch n REDDIT_PATTERN
           (pfx @ ''http://www.reddit.com'' @ sub_from n REDDIT_PATTERN ''http://www.reddit.com'' x)
           \<noteq> []"
          using less.prems by simp
        then obtain m r where m: "m \<in> lang REDDIT_PATTERN"
          and e: "pfx @ ''http://www.reddit.com''
                  @ sub_from n REDDIT_PATTERN ''http://www.reddit.com'' x = m @ r"
          by (auto simp only: REDDIT_match_iff)
        from REDDIT_no_straddle[OF m False e] obtain r' where "pfx = m @ r'" ..
        then have "pfx @ cs = m @ (r' @ cs)" by simp
        then show ?thesis using m by (simp only: REDDIT_match_iff) blast
      qed
    qed
  qed
qed

lemma rsub_idem:
  "sub_from n REDDIT_PATTERN ''http://www.reddit.com''
     (sub_from n REDDIT_PATTERN ''http://www.reddit.com'' s)
   = sub_from n REDDIT_PATTERN ''http://www.reddit.com'' s"
proof (induction "length s" arbitrary: s rule: less_induct)
  case less
  show ?case
  proof (cases s)
    case Nil
    then show ?thesis by (simp add: REDDIT_no_match_Nil)
  next
    case (Cons c cs)
    show ?thesis
    proof (cases "rmatch n REDDIT_PATTERN (c # cs)")
      case Nil
      then have s1: "sub_from n REDDIT_PATTERN ''http://www.reddit.com'' s
          = c # sub_from n REDDIT_PATTERN ''http://www.reddit.com'' cs"
        using Cons by (simp only: rsub_no_match)
      have "rmatch n REDDIT_PATTERN
              ([c] @ sub_from n REDDIT_PATTERN ''http://www.reddit.com'' cs) = []"
        using rsub_no_new_match[of n "[c]" cs] Nil by auto
      then have "sub_from n REDDIT_PATTERN ''http://www.reddit.com''
              (c # sub_from n REDDIT_PATTERN ''http://www.reddit.com'' cs)
           = c # sub_from n REDDIT_PATTERN ''http://www.reddit.com''
                   (sub_from n REDDIT_PATTERN ''http://www.reddit.com'' cs)"
        by (simp only: rsub_no_match append_Cons append_Nil)
      then show ?thesis using s1 less[of cs] Cons by simp
    next
      case (Cons x xs)
      then have s1: "sub_from n REDDIT_PATTERN ''http://www.reddit.com'' s
          = ''http://www.reddit.com'' @ sub_from n REDDIT_PATTERN ''http://www.reddit.com'' x"
        using \<open>s = c # cs\<close> by (simp only: rsub_match)
      have "x \<in> set (rmatch n REDDIT_PATTERN s)" using Cons \<open>s = c # cs\<close> by simp
      then have "length x < length s" by (rule REDDIT_rest_shorter)
      then show ?thesis using s1 less[of x] by (simp only: rsub_canonical)
    qed
  qed
qed

lemma rsub_n_indep:
  "sub_from n REDDIT_PATTERN repl s = sub_from 0 REDDIT_PATTERN repl s"
proof (induction "length s" arbitrary: s rule: less_induct)
  case less
  have eq: "rmatch n REDDIT_PATTERN t = rmatch 0 REDDIT_PATTERN t" for t
    by (rule rmatch_ctx_free[OF REDDIT_ctx_free])
  show ?case
  proof (cases s)
    case Nil
    then show ?thesis by (simp only: rsub_Nil)
  next
    case (Cons c cs)
    show ?thesis
    proof (cases "rmatch 0 REDDIT_PATTERN (c # cs)")
      case Nil
      then have "rmatch n REDDIT_PATTERN (c # cs) = []" using eq by simp
      then show ?thesis using Nil Cons less[of cs] by (simp only: rsub_no_match) simp
    next
      case (Cons x xs)
      then have n: "rmatch n REDDIT_PATTERN (c # cs) = x # xs" using eq by simp
      have "x \<in> set (rmatch n REDDIT_PATTERN s)" using n \<open>s = c # cs\<close> by simp
      then have "length x < length s" by (rule REDDIT_rest_shorter)
      then show ?thesis
        using less[of x] \<open>s = c # cs\<close> rsub_match[OF n] rsub_match[OF Cons] by simp
    qed
  qed
qed

lemma re_sub_REDDIT_idem:
  "re_sub REDDIT_PATTERN ''http://www.reddit.com'' (re_sub REDDIT_PATTERN ''http://www.reddit.com'' s)
   = re_sub REDDIT_PATTERN ''http://www.reddit.com'' s"
  unfolding re_sub_def
  by (subst rsub_n_indep, subst (2) rsub_n_indep, subst (3) rsub_n_indep) (rule rsub_idem)

lemma has_dslash_Cons: "has_dslash t \<Longrightarrow> has_dslash (c # t)"
  by (cases t) auto

lemma has_dslash_canonical: "has_dslash (''http://www.reddit.com'' @ y)"
  by simp

lemma has_dslash_noslash_Cons:
  "c \<noteq> CHR ''/'' \<Longrightarrow> has_dslash (c # t) = has_dslash t"
  by (cases t) auto

lemma has_dslash_noslash_append:
  "CHR ''/'' \<notin> set y \<Longrightarrow> has_dslash (y @ t) = has_dslash t"
  by (induction y) (auto simp: has_dslash_noslash_Cons)

lemma has_dslash_slash_noslash:
  assumes "CHR ''/'' \<notin> set y" "y \<noteq> []"
  shows "has_dslash (CHR ''/'' # y @ t) = has_dslash t"
proof -
  obtain a y' where y: "y = a # y'" using assms(2) by (cases y) auto
  then have "a \<noteq> CHR ''/''" using assms(1) by auto
  then have "has_dslash (CHR ''/'' # y @ t) = has_dslash (y @ t)"
    unfolding y by simp
  then show ?thesis using assms(1) by (simp add: has_dslash_noslash_append)
qed

lemma rsub_changed_dslash:
  "sub_from n REDDIT_PATTERN ''http://www.reddit.com'' s \<noteq> s
   \<Longrightarrow> has_dslash (sub_from n REDDIT_PATTERN ''http://www.reddit.com'' s)"
proof (induction s)
  case Nil
  then show ?case by (simp add: REDDIT_no_match_Nil)
next
  case (Cons c cs)
  show ?case
  proof (cases "rmatch n REDDIT_PATTERN (c # cs)")
    case Nil
    then have s1: "sub_from n REDDIT_PATTERN ''http://www.reddit.com'' (c # cs)
          = c # sub_from n REDDIT_PATTERN ''http://www.reddit.com'' cs"
      by (simp only: rsub_no_match)
    then have "sub_from n REDDIT_PATTERN ''http://www.reddit.com'' cs \<noteq> cs"
      using Cons.prems by auto
    then have "has_dslash (sub_from n REDDIT_PATTERN ''http://www.reddit.com'' cs)"
      by (rule Cons.IH)
    then show ?thesis unfolding s1 by (rule has_dslash_Cons)
  next
    case (Cons x xs)
    then have "sub_from n REDDIT_PATTERN ''http://www.reddit.com'' (c # cs)
          = ''http://www.reddit.com'' @ sub_from n REDDIT_PATTERN ''http://www.reddit.com'' x"
      by (simp only: rsub_match)
    then show ?thesis by (simp only: has_dslash_canonical)
  qed
qed

lemma not_slash_set: "\<forall>c\<in>set y. cls_not_slash c \<Longrightarrow> CHR ''/'' \<notin> set y"
  by (auto simp: cls_not_slash_def)

lemma tail_shape:
  assumes "r \<in> set (rmatch n (Seq (Lit ''/'')
       (Seq (Rep 1 None cls_not_slash) (Seq (Opt (Lit ''/'')) Eol))) s)"
  shows "\<exists>y t e. s = ''/'' @ y @ t @ e \<and> y \<noteq> [] \<and> CHR ''/'' \<notin> set y
           \<and> (t = ''/'' \<or> t = []) \<and> (e = [] \<or> e = [CHR 0x0A])"
proof -
  from assms obtain m1 where 1: "m1 \<in> set (rmatch n (Lit ''/'') s)"
    and r1: "r \<in> set (rmatch n (Seq (Rep 1 None cls_not_slash) (Seq (Opt (Lit ''/'')) Eol)) m1)"
    by (subst (asm) rests_Seq) blast
  from r1 obtain m2 where 2: "m2 \<in> set (rmatch n (Rep 1 None cls_not_slash) m1)"
    and r2: "r \<in> set (rmatch n (Seq (Opt (Lit ''/'')) Eol) m2)"
    by (subst (asm) rests_Seq) blast
  from r2 obtain m3 where 3: "m3 \<in> set (rmatch n (Opt (Lit ''/'')) m2)"
    and r3: "r \<in> set (rmatch n Eol m3)"
    by (subst (asm) rests_Seq) blast
  have s: "s = ''/'' @ m1" using 1 by (simp only: rests_Lit)
  from 2 obtain y where y: "m1 = y @ m2" "1 \<le> length y" "\<forall>c\<in>set y. cls_not_slash c"
    by (subst (asm) rests_Rep) blast
  from 3 have "m2 = ''/'' @ m3 \<or> m3 = m2"
    by (simp only: rests_Opt rests_Lit)
  then obtain t where t: "m2 = t @ m3" "t = ''/'' \<or> t = []" by auto
  from r3 have e: "m3 = [] \<or> m3 = [CHR 0x0A]" by (simp only: rests_Eol)
  have "s = ''/'' @ y @ t @ m3" using s y(1) t(1) by simp
  moreover have "y \<noteq> []" using y(2) by auto
  moreover have "CHR ''/'' \<notin> set y" using y(3) by (rule not_slash_set)
  ultimately show ?thesis using t(2) e by blast
qed

section \<open>Idempotence of the normaliser\<close>

lemma u_user_r_rests:
  "m \<in> set (rmatch n u_user_r s) \<longleftrightarrow> (s = ''u'' @ m \<or> s = ''user'' @ m \<or> s = ''r'' @ m)"
  unfolding u_user_r_def by (simp only: rests_Alt rests_Lit)

lemma PLAIN_no_dslash:
  assumes "r \<in> set (rmatch n PLAIN_SUBREDDIT_OR_USER z)"
  shows "\<not> has_dslash z"
proof -
  from assms[unfolded PLAIN_SUBREDDIT_OR_USER_def]
  obtain m0 where 0: "m0 \<in> set (rmatch n Bol z)"
    and r0: "r \<in> set (rmatch n (Seq (Opt (Lit ''/'')) (Seq u_user_r (Seq (Lit ''/'')
       (Seq (Rep 1 None cls_not_slash) (Seq (Opt (Lit ''/'')) Eol))))) m0)"
    by (subst (asm) rests_Seq) blast
  from r0 obtain m1 where 1: "m1 \<in> set (rmatch n (Opt (Lit ''/'')) m0)"
    and r1: "r \<in> set (rmatch n (Seq u_user_r (Seq (Lit ''/'')
       (Seq (Rep 1 None cls_not_slash) (Seq (Opt (Lit ''/'')) Eol)))) m1)"
    by (subst (asm) rests_Seq) blast
  from r1 obtain m2 where 2: "m2 \<in> set (rmatch n u_user_r m1)"
    and r2: "r \<in> set (rmatch n (Seq (Lit ''/'')
       (Seq (Rep 1 None cls_not_slash) (Seq (Opt (Lit ''/'')) Eol))) m2)"
    by (subst (asm) rests_Seq) blast
  from tail_shape[OF r2] obtain y t e where m2: "m2 = ''/'' @ y @ t @ e"
    and y: "y \<noteq> []" "CHR ''/'' \<notin> set y" and t: "t = ''/'' \<or> t = []"
    and e: "e = [] \<or> e = [CHR 0x0A]"
    by blast
  have te: "\<not> has_dslash (t @ e)" using t e by auto
  have tail: "\<not> has_dslash m2"
    unfolding m2 using has_dslash_slash_noslash[OF y(2,1), of "t @ e"] te by simp
  have m0: "m0 = z" using 0 by (simp only: rests_Bol)
  from 1 have lead: "z = ''/'' @ m1 \<or> m1 = z"
    unfolding m0 by (simp only: rests_Opt rests_Lit)
  from 2 have k: "m1 = ''u'' @ m2 \<or> m1 = ''user'' @ m2 \<or> m1 = ''r'' @ m2"
    by (simp only: u_user_r_rests)
  have hm2: "m2 = CHR ''/'' # (y @ t @ e)" using m2 by simp
  have m1: "\<not> has_dslash m1"
    using k tail unfolding hm2 by (elim disjE) simp_all
  have "\<not> has_dslash (''/'' @ m1)"
    using k m1 by (elim disjE) simp_all
  then show ?thesis using lead m1 by auto
qed

lemma PLAIN_canonical:
  "rmatch n PLAIN_SUBREDDIT_OR_USER (''http://www.reddit.com'' @ w) = []"
  by (simp add: PLAIN_SUBREDDIT_OR_USER_def u_user_r_def)

lemma re_match_None_iff: "re_match r s = None \<longleftrightarrow> rmatch (length s) r s = []"
  by (simp add: re_match_def split: list.splits)

lemma re_sub_REDDIT_PLAIN:
  assumes "re_match PLAIN_SUBREDDIT_OR_USER u = None"
  shows "re_match PLAIN_SUBREDDIT_OR_USER (re_sub REDDIT_PATTERN ''http://www.reddit.com'' u) = None"
proof (rule ccontr)
  let ?v = "re_sub REDDIT_PATTERN ''http://www.reddit.com'' u"
  assume "re_match PLAIN_SUBREDDIT_OR_USER ?v \<noteq> None"
  then have "rmatch (length ?v) PLAIN_SUBREDDIT_OR_USER ?v \<noteq> []"
    by (simp add: re_match_None_iff)
  then obtain r where "r \<in> set (rmatch (length ?v) PLAIN_SUBREDDIT_OR_USER ?v)"
    by (cases "rmatch (length ?v) PLAIN_SUBREDDIT_OR_USER ?v") auto
  then have "\<not> has_dslash ?v" by (rule PLAIN_no_dslash)
  then have "?v = u"
    using rsub_changed_dslash[of "length u" u] unfolding re_sub_def by blast
  then show False
    using assms \<open>re_match PLAIN_SUBREDDIT_OR_USER ?v \<noteq> None\<close> by simp
qed

text \<open>
  Claim C8: \<^verbatim>\<open>fix_url\<close> is idempotent, for every string. The substitution
  leaves no match of \<^verbatim>\<open>REDDIT_PATTERN\<close> other than the canonical host it has
  written, and what it returns does not match
  \<^verbatim>\<open>PLAIN_SUBREDDIT_OR_USER\<close> unless its argument did.
\<close>

theorem C8_fix_url_idempotent: "fix_url (fix_url u) = fix_url u"
proof (cases "re_match PLAIN_SUBREDDIT_OR_USER u = None")
  case True
  then have f: "fix_url u = re_sub REDDIT_PATTERN ''http://www.reddit.com'' u"
    by (simp add: fix_url_def)
  have "re_match PLAIN_SUBREDDIT_OR_USER (fix_url u) = None"
    unfolding f using True by (rule re_sub_REDDIT_PLAIN)
  then have "fix_url (fix_url u) = re_sub REDDIT_PATTERN ''http://www.reddit.com'' (fix_url u)"
    by (simp add: fix_url_def)
  then show ?thesis unfolding f by (simp only: re_sub_REDDIT_idem)
next
  case False
  then have f: "fix_url u
      = re_sub REDDIT_PATTERN ''http://www.reddit.com'' (''http://www.reddit.com/'' @ u)"
    by (simp add: fix_url_def)
  have "re_sub REDDIT_PATTERN ''http://www.reddit.com'' (''http://www.reddit.com/'' @ u)
      = ''http://www.reddit.com''
        @ sub_from (length (''http://www.reddit.com/'' @ u)) REDDIT_PATTERN
            ''http://www.reddit.com'' (''/'' @ u)"
    unfolding re_sub_def using rsub_canonical[of _ _ "''/'' @ u"] by simp
  then obtain w where w: "fix_url u = ''http://www.reddit.com'' @ w"
    unfolding f by blast
  have "re_match PLAIN_SUBREDDIT_OR_USER (fix_url u) = None"
    unfolding w by (simp only: re_match_None_iff PLAIN_canonical)
  then have "fix_url (fix_url u) = re_sub REDDIT_PATTERN ''http://www.reddit.com'' (fix_url u)"
    by (simp add: fix_url_def)
  then show ?thesis unfolding f by (simp only: re_sub_REDDIT_idem)
qed

section \<open>Skipping bare references\<close>

lemma search_from_iff:
  "search_from n r s \<noteq> None \<longleftrightarrow> (\<exists>p q. s = p @ q \<and> rmatch n r q \<noteq> [])"
proof (induction s)
  case Nil
  then show ?case by (auto split: list.splits)
next
  case (Cons c cs)
  show ?case
  proof (cases "rmatch n r (c # cs)")
    case Nil
    then have "search_from n r (c # cs) \<noteq> None \<longleftrightarrow> (\<exists>p q. cs = p @ q \<and> rmatch n r q \<noteq> [])"
      using Cons.IH by simp
    also have "\<dots> \<longleftrightarrow> (\<exists>p q. c # cs = p @ q \<and> rmatch n r q \<noteq> [])"
    proof
      assume "\<exists>p q. cs = p @ q \<and> rmatch n r q \<noteq> []"
      then obtain p q where "cs = p @ q" "rmatch n r q \<noteq> []" by blast
      then have "c # cs = (c # p) @ q \<and> rmatch n r q \<noteq> []" by simp
      then show "\<exists>p q. c # cs = p @ q \<and> rmatch n r q \<noteq> []" by blast
    next
      assume "\<exists>p q. c # cs = p @ q \<and> rmatch n r q \<noteq> []"
      then obtain p q where pq: "c # cs = p @ q" "rmatch n r q \<noteq> []" by blast
      show "\<exists>p q. cs = p @ q \<and> rmatch n r q \<noteq> []"
      proof (cases p)
        case Nil
        then show ?thesis using pq \<open>rmatch n r (c # cs) = []\<close> by simp
      next
        case (Cons a p')
        then have "cs = p' @ q" using pq(1) by simp
        then show ?thesis using pq(2) by blast
      qed
    qed
    finally show ?thesis .
  next
    case (Cons x xs)
    then have "c # cs = [] @ (c # cs) \<and> rmatch n r (c # cs) \<noteq> []" by simp
    then have "\<exists>p q. c # cs = p @ q \<and> rmatch n r q \<noteq> []" by blast
    then show ?thesis using Cons by simp
  qed
qed

lemma tail_match:
  assumes "y \<noteq> []" "CHR ''/'' \<notin> set y" "t = ''/'' \<or> t = []" "e = [] \<or> e = [CHR 0x0A]"
  shows "e \<in> set (rmatch n (Seq (Lit ''/'')
       (Seq (Rep 1 None cls_not_slash) (Seq (Opt (Lit ''/'')) Eol))) (''/'' @ y @ t @ e))"
proof -
  have 1: "y @ t @ e \<in> set (rmatch n (Lit ''/'') (''/'' @ y @ t @ e))"
    by (simp only: rests_Lit)
  have "\<forall>c\<in>set y. cls_not_slash c" using assms(2) by (auto simp: cls_not_slash_def)
  moreover have "1 \<le> length y" using assms(1) by (cases y) auto
  ultimately have 2: "t @ e \<in> set (rmatch n (Rep 1 None cls_not_slash) (y @ t @ e))"
    by (subst rests_Rep) auto
  have 3: "e \<in> set (rmatch n (Opt (Lit ''/'')) (t @ e))"
    using assms(3) by (auto simp only: rests_Opt rests_Lit)
  have 4: "e \<in> set (rmatch n Eol e)"
    using assms(4) by (simp only: rests_Eol)
  show ?thesis
    using 1 2 3 4 by (subst rests_Seq, subst rests_Seq, subst rests_Seq) blast
qed

lemma SUBREDDIT_match_iff:
  "rmatch n SUBREDDIT_OR_USER q \<noteq> [] \<longleftrightarrow>
     (\<exists>k y t e. q = ''/'' @ k @ ''/'' @ y @ t @ e
        \<and> (k = ''u'' \<or> k = ''user'' \<or> k = ''r'')
        \<and> y \<noteq> [] \<and> CHR ''/'' \<notin> set y
        \<and> (t = ''/'' \<or> t = []) \<and> (e = [] \<or> e = [CHR 0x0A]))"
  (is "?L \<longleftrightarrow> ?R")
proof
  assume ?L
  then obtain r where "r \<in> set (rmatch n SUBREDDIT_OR_USER q)"
    by (cases "rmatch n SUBREDDIT_OR_USER q") auto
  then obtain m1 where 1: "m1 \<in> set (rmatch n (Lit ''/'') q)"
    and r1: "r \<in> set (rmatch n (Seq u_user_r (Seq (Lit ''/'')
       (Seq (Rep 1 None cls_not_slash) (Seq (Opt (Lit ''/'')) Eol)))) m1)"
    unfolding SUBREDDIT_OR_USER_def by (subst (asm) rests_Seq) blast
  from r1 obtain m2 where 2: "m2 \<in> set (rmatch n u_user_r m1)"
    and r2: "r \<in> set (rmatch n (Seq (Lit ''/'')
       (Seq (Rep 1 None cls_not_slash) (Seq (Opt (Lit ''/'')) Eol))) m2)"
    by (subst (asm) rests_Seq) blast
  from tail_shape[OF r2] obtain y t e where m2: "m2 = ''/'' @ y @ t @ e"
    and y: "y \<noteq> []" "CHR ''/'' \<notin> set y" and t: "t = ''/'' \<or> t = []"
    and e: "e = [] \<or> e = [CHR 0x0A]"
    by blast
  have q: "q = ''/'' @ m1" using 1 by (simp only: rests_Lit)
  from 2 obtain k where k: "m1 = k @ m2" "k = ''u'' \<or> k = ''user'' \<or> k = ''r''"
    by (auto simp only: u_user_r_rests)
  have "q = ''/'' @ k @ ''/'' @ y @ t @ e" unfolding q k(1) m2 ..
  then show ?R using k(2) y t e by blast
next
  assume ?R
  then obtain k y t e where q: "q = ''/'' @ k @ ''/'' @ y @ t @ e"
    and k: "k = ''u'' \<or> k = ''user'' \<or> k = ''r''"
    and y: "y \<noteq> []" "CHR ''/'' \<notin> set y" and t: "t = ''/'' \<or> t = []"
    and e: "e = [] \<or> e = [CHR 0x0A]"
    by blast
  have 1: "k @ ''/'' @ y @ t @ e \<in> set (rmatch n (Lit ''/'') q)"
    unfolding q by (simp only: rests_Lit)
  have 2: "''/'' @ y @ t @ e \<in> set (rmatch n u_user_r (k @ ''/'' @ y @ t @ e))"
    using k by (auto simp only: u_user_r_rests)
  have 3: "e \<in> set (rmatch n (Seq (Lit ''/'')
       (Seq (Rep 1 None cls_not_slash) (Seq (Opt (Lit ''/'')) Eol))) (''/'' @ y @ t @ e))"
    using y t e by (rule tail_match)
  have "e \<in> set (rmatch n SUBREDDIT_OR_USER q)"
    unfolding SUBREDDIT_OR_USER_def
    using 1 2 3 by (subst rests_Seq, subst rests_Seq) blast
  then show ?L by auto
qed

lemma split_last_slash:
  assumes "a @ CHR ''/'' # b = a' @ CHR ''/'' # b'"
    and "CHR ''/'' \<notin> set b" and "CHR ''/'' \<notin> set b'"
  shows "a = a' \<and> b = b'"
proof -
  let ?P = "\<lambda>c. c \<noteq> CHR ''/''"
  have "rev b @ CHR ''/'' # rev a = rev b' @ CHR ''/'' # rev a'"
    using arg_cong[OF assms(1), of rev] by simp
  moreover have "takeWhile ?P (rev b @ CHR ''/'' # rev a) = rev b"
    using assms(2) by (subst takeWhile_append2) auto
  moreover have "takeWhile ?P (rev b' @ CHR ''/'' # rev a') = rev b'"
    using assms(3) by (subst takeWhile_append2) auto
  ultimately have "rev b = rev b'" by simp
  then have b: "b = b'" by simp
  then show ?thesis using assms(1) by simp
qed

lemma tail_unique:
  assumes eq: "A @ ''/'' @ seg @ t = B @ ''/'' @ y @ t' @ e"
    and seg: "seg \<noteq> []" "CHR ''/'' \<notin> set seg" "CHR 0x0A \<notin> set seg"
    and y: "y \<noteq> []" "CHR ''/'' \<notin> set y"
    and t: "t = [] \<or> t = ''/''"
    and t': "t' = ''/'' \<or> t' = []"
    and e: "e = [] \<or> e = [CHR 0x0A]"
  shows "A = B \<and> seg = y"
proof -
  have "last seg \<in> set seg" using seg(1) by (rule last_in_set)
  then have ls: "last seg \<noteq> CHR ''/''" "last seg \<noteq> CHR 0x0A"
    using seg(2,3) by auto
  have "last y \<in> set y" using y(1) by (rule last_in_set)
  then have ly: "last y \<noteq> CHR ''/''"
    using y(2) by auto
  have le: "last (A @ ''/'' @ seg @ t) = last (B @ ''/'' @ y @ t' @ e)"
    using eq by simp
  consider (plain) "t = []" "t' = []" "e = []" | (slash) "t = ''/''" "t' = ''/''" "e = []"
    using t t' e le ls ly seg(1) y(1) by (elim disjE) auto
  then show ?thesis
  proof cases
    case plain
    then have "A @ CHR ''/'' # seg = B @ CHR ''/'' # y" using eq by simp
    then show ?thesis using seg(2) y(2) by (rule split_last_slash)
  next
    case slash
    then have "(A @ CHR ''/'' # seg) @ ''/'' = (B @ CHR ''/'' # y) @ ''/''" using eq by simp
    then have "A @ CHR ''/'' # seg = B @ CHR ''/'' # y" by (simp only: append_same_eq)
    then show ?thesis using seg(2) y(2) by (rule split_last_slash)
  qed
qed

lemma REDDIT_full_match_extends:
  assumes "re_match REDDIT_PATTERN d = Some (length d)"
  shows "re_match REDDIT_PATTERN (d @ p) \<noteq> None"
proof -
  from assms obtain x xs where r: "rmatch (length d) REDDIT_PATTERN d = x # xs"
    and l: "length d - length x = length d"
    by (auto simp: re_match_def split: list.splits)
  have "x \<in> set (rmatch (length d) REDDIT_PATTERN d)" using r by simp
  then obtain m where m: "m \<in> lang REDDIT_PATTERN" "d = m @ x"
    by (auto simp only: rests_lang[OF REDDIT_ctx_free])
  have "x = []" using l m(2) REDDIT_lang_nonempty[OF m(1)] by (cases x) auto
  then have "d \<in> lang REDDIT_PATTERN" using m by simp
  then have "rmatch (length (d @ p)) REDDIT_PATTERN (d @ p) \<noteq> []"
    by (simp only: REDDIT_match_iff) blast
  then show ?thesis by (simp add: re_match_None_iff)
qed

lemma re_search_iff:
  "re_search r s \<noteq> None \<longleftrightarrow> (\<exists>p q. s = p @ q \<and> rmatch (length s) r q \<noteq> [])"
  unfolding re_search_def by (rule search_from_iff)

text \<open>
  Claim C6 says that a bare reference is skipped and that the same URL with
  any further path segment is not. The code of \<^verbatim>\<open>skip_url\<close> does otherwise
  for the second half: it searches for \<^verbatim>\<open>SUBREDDIT_OR_USER\<close> anywhere in the
  URL, so a deep link is skipped whenever its last two segments have the
  shape of a bare reference, as in \<^verbatim>\<open>/u/user/comments\<close> (the profile of the
  user named \<^verbatim>\<open>user\<close>) and in \<^verbatim>\<open>/r/test/comments/r/x\<close>. The bare
  reference \<^verbatim>\<open>/u/user\<close> is skipped and the deep link \<^verbatim>\<open>/r/test/comments\<close> is
  not, as the claim says.
\<close>

theorem C6_deep_link_skipped:
  "skip_url ''http://www.reddit.com/u/user'' = True
   \<and> skip_url ''http://www.reddit.com/u/user/comments'' = True
   \<and> skip_url ''http://www.reddit.com/r/test/comments/r/x'' = True
   \<and> skip_url ''http://www.reddit.com/r/test/comments'' = False"
  by code_simp

text \<open>
  What \<^verbatim>\<open>skip_url\<close> computes on a bare reference and on a bare reference
  with one more segment: let \<^verbatim>\<open>REDDIT_PATTERN\<close> match the whole of \<open>d\<close>, let
  \<open>k\<close> be one of \<^verbatim>\<open>r\<close>, \<^verbatim>\<open>u\<close> and \<^verbatim>\<open>user\<close>, and \<open>x\<close> a name without a slash.
  Then \<^verbatim>\<open>skip_url\<close> is true of \<open>d/k/x\<close>, with or without a slash at the end,
  which is the first half of claim C6; and of the same URL with one more
  segment it is true exactly when \<open>x\<close> is itself one of \<^verbatim>\<open>r\<close>, \<^verbatim>\<open>u\<close> and
  \<^verbatim>\<open>user\<close>.
\<close>

lemma skip_url_bare_and_one_more_segment:
  assumes d: "re_match REDDIT_PATTERN d = Some (length d)"
    and k: "k = ''r'' \<or> k = ''u'' \<or> k = ''user''"
    and x: "x \<noteq> []" "CHR ''/'' \<notin> set x"
    and t: "t = [] \<or> t = ''/''"
    and seg: "seg \<noteq> []" "CHR ''/'' \<notin> set seg" "CHR 0x0A \<notin> set seg"
  shows "skip_url (d @ ''/'' @ k @ ''/'' @ x @ t)
     \<and> (skip_url (d @ ''/'' @ k @ ''/'' @ x @ ''/'' @ seg @ t)
          \<longleftrightarrow> (x = ''r'' \<or> x = ''u'' \<or> x = ''user''))"
proof
  let ?bare = "d @ ''/'' @ k @ ''/'' @ x @ t"
  have t2: "t = ''/'' \<or> t = []" using t by blast
  have e0: "([]::string) = [] \<or> ([]::string) = [CHR 0x0A]" by simp
  have "rmatch (length ?bare) SUBREDDIT_OR_USER (''/'' @ k @ ''/'' @ x @ t @ []) \<noteq> []"
    by (subst SUBREDDIT_match_iff) (use k x t2 in blast)
  then have "\<exists>p q. ?bare = p @ q \<and> rmatch (length ?bare) SUBREDDIT_OR_USER q \<noteq> []"
    by (intro exI[of _ d] exI[of _ "''/'' @ k @ ''/'' @ x @ t"]) simp
  then have "re_search SUBREDDIT_OR_USER ?bare \<noteq> None"
    by (simp only: re_search_iff)
  then show "skip_url ?bare"
    using REDDIT_full_match_extends[OF d, of "''/'' @ k @ ''/'' @ x @ t"]
    by (simp add: skip_url_def)
next
  let ?ext = "d @ ''/'' @ k @ ''/'' @ x @ ''/'' @ seg @ t"
  have t2: "t = ''/'' \<or> t = []" using t by blast
  have dm: "re_match REDDIT_PATTERN ?ext \<noteq> None"
    using d by (rule REDDIT_full_match_extends)
  show "skip_url ?ext \<longleftrightarrow> (x = ''r'' \<or> x = ''u'' \<or> x = ''user'')"
  proof
    assume "skip_url ?ext"
    then have "re_search SUBREDDIT_OR_USER ?ext \<noteq> None" by (simp add: skip_url_def)
    then have "\<exists>p q. ?ext = p @ q \<and> rmatch (length ?ext) SUBREDDIT_OR_USER q \<noteq> []"
      by (simp only: re_search_iff)
    then obtain p q where pq: "?ext = p @ q"
      and m: "rmatch (length ?ext) SUBREDDIT_OR_USER q \<noteq> []"
      by blast
    from m have "\<exists>k' y t' e. q = ''/'' @ k' @ ''/'' @ y @ t' @ e
        \<and> (k' = ''u'' \<or> k' = ''user'' \<or> k' = ''r'')
        \<and> y \<noteq> [] \<and> CHR ''/'' \<notin> set y
        \<and> (t' = ''/'' \<or> t' = []) \<and> (e = [] \<or> e = [CHR 0x0A])"
      by (simp only: SUBREDDIT_match_iff)
    then obtain k' y t' e where q: "q = ''/'' @ k' @ ''/'' @ y @ t' @ e"
      and k': "k' = ''u'' \<or> k' = ''user'' \<or> k' = ''r''"
      and y: "y \<noteq> []" "CHR ''/'' \<notin> set y" and t': "t' = ''/'' \<or> t' = []"
      and e: "e = [] \<or> e = [CHR 0x0A]"
      by blast
    have "(d @ ''/'' @ k @ ''/'' @ x) @ ''/'' @ seg @ t = (p @ ''/'' @ k') @ ''/'' @ y @ t' @ e"
      using pq unfolding q by simp
    from tail_unique[OF this seg y t t' e]
    have "d @ ''/'' @ k @ ''/'' @ x = p @ ''/'' @ k'" by simp
    then have "(d @ ''/'' @ k) @ CHR ''/'' # x = p @ CHR ''/'' # k'" by simp
    moreover have "CHR ''/'' \<notin> set k'" using k' by auto
    ultimately have "x = k'" using x(2) split_last_slash by blast
    then show "x = ''r'' \<or> x = ''u'' \<or> x = ''user''" using k' by blast
  next
    assume xk: "x = ''r'' \<or> x = ''u'' \<or> x = ''user''"
    then have xk': "x = ''u'' \<or> x = ''user'' \<or> x = ''r''" by blast
    have "rmatch (length ?ext) SUBREDDIT_OR_USER (''/'' @ x @ ''/'' @ seg @ t @ []) \<noteq> []"
      by (subst SUBREDDIT_match_iff) (use xk' seg t2 in blast)
    then have "\<exists>p q. ?ext = p @ q \<and> rmatch (length ?ext) SUBREDDIT_OR_USER q \<noteq> []"
      by (intro exI[of _ "d @ ''/'' @ k"] exI[of _ "''/'' @ x @ ''/'' @ seg @ t"]) simp
    then have "re_search SUBREDDIT_OR_USER ?ext \<noteq> None"
      by (simp only: re_search_iff)
    then show "skip_url ?ext" using dm by (simp add: skip_url_def)
  qed
qed

end
